theory Spec2Isabelle
  imports Main "HOL-Library.Char_ord" "HOL-Library.List_Lexorder" "HOL-Library.Sublist"
begin

section \<open>Text\<close>

text \<open>
  Python's \<open>str\<close> is a sequence of code points. Text is modelled as \<open>string\<close>, one
  \<open>char\<close> per code point, so the model covers the code points 0..255 (Latin-1); on these
  \<open>str.lower\<close>, \<open>str.strip\<close>, \<open>str.splitlines\<close> and the comparison of strings behave as
  defined below. The order on \<open>char\<close> is the order of code points, the order on strings and
  on lists of strings is lexicographic, as Python's.
\<close>

definition lower_char :: "char \<Rightarrow> char" where
  "lower_char c =
     (let n = (of_char c :: nat)
      in if (65 \<le> n \<and> n \<le> 90) \<or> (192 \<le> n \<and> n \<le> 222 \<and> n \<noteq> 215)
         then char_of (n + 32) else c)"

definition lower :: "string \<Rightarrow> string" where
  "lower s = map lower_char s"

definition startswith :: "string \<Rightarrow> string \<Rightarrow> bool" where
  "startswith s p = prefix p s"

definition endswith :: "string \<Rightarrow> string \<Rightarrow> bool" where
  "endswith s p = suffix p s"

text \<open>\<open>s.strip("/")\<close>: every leading and every trailing slash is removed.\<close>

definition strip_slashes :: "string \<Rightarrow> string" where
  "strip_slashes s =
     rev (dropWhile (\<lambda>c. c = CHR ''/'') (rev (dropWhile (\<lambda>c. c = CHR ''/'') s)))"

text \<open>\<open>s.split(d)\<close> for a one-character separator.\<close>

fun split_sep :: "char \<Rightarrow> string \<Rightarrow> string list" where
  "split_sep d [] = [[]]"
| "split_sep d (c # cs) =
     (if c = d then [] # split_sep d cs
      else (case split_sep d cs of [] \<Rightarrow> [[c]] | w # ws \<Rightarrow> (c # w) # ws))"

text \<open>\<open>sub in s\<close> for strings.\<close>

fun contains :: "string \<Rightarrow> string \<Rightarrow> bool" where
  "contains [] sub = (sub = [])"
| "contains (c # cs) sub = (prefix sub (c # cs) \<or> contains cs sub)"

text \<open>
  \<open>str.strip()\<close> removes white space at both ends; in Latin-1 the white space characters are
  the code points 9..13, 28..32, 133 and 160.
\<close>

definition is_space :: "char \<Rightarrow> bool" where
  "is_space c =
     (let n = (of_char c :: nat)
      in (9 \<le> n \<and> n \<le> 13) \<or> (28 \<le> n \<and> n \<le> 32) \<or> n = 133 \<or> n = 160)"

definition strip :: "string \<Rightarrow> string" where
  "strip s = rev (dropWhile is_space (rev (dropWhile is_space s)))"

text \<open>
  \<open>str.splitlines()\<close>: a line ends at \<open>\n\<close>, \<open>\r\<close>, \<open>\r\n\<close>, or one of the code points
  11, 12, 28, 29, 30, 133; the line ends are dropped and a final line end opens no new line.
\<close>

definition is_linebreak :: "char \<Rightarrow> bool" where
  "is_linebreak c = ((of_char c :: nat) \<in> {10, 11, 12, 13, 28, 29, 30, 133})"

fun splitlines_acc :: "string \<Rightarrow> string \<Rightarrow> string list" where
  "splitlines_acc acc [] = (if acc = [] then [] else [rev acc])"
| "splitlines_acc acc [c] =
     (if is_linebreak c then [rev acc] else [rev (c # acc)])"
| "splitlines_acc acc (c # d # cs) =
     (if (of_char c :: nat) = 13 \<and> (of_char d :: nat) = 10 then rev acc # splitlines_acc [] cs
      else if is_linebreak c then rev acc # splitlines_acc [] (d # cs)
      else splitlines_acc (c # acc) (d # cs))"

definition splitlines :: "string \<Rightarrow> string list" where
  "splitlines s = splitlines_acc [] s"


section \<open>Paths\<close>

text \<open>
  A \<open>pathlib.Path\<close> that is absolute is the list of its components below \<open>/\<close>. As in
  pathlib a path is a lexical object: a component \<open>..\<close> stays in the list until the path is
  resolved. Paths compare as the lists of their components do. POSIX has a second root,
  \<open>//\<close>, which pathlib keeps apart from \<open>/\<close>: a path with the root \<open>//\<close> is the list of its
  components after an empty first component, so that it is below no path with the root \<open>/\<close>.
\<close>

type_synonym path = "string list"

text \<open>
  The components pathlib reads from a string: the pieces between slashes, without the empty
  ones and without \<open>.\<close>.
\<close>

definition parse_parts :: "string \<Rightarrow> path" where
  "parse_parts s = filter (\<lambda>x. x \<noteq> [] \<and> x \<noteq> ''.'') (split_sep CHR ''/'' s)"

text \<open>
  \<open>base / s\<close>: an absolute \<open>s\<close> replaces the base. A string that starts with exactly two
  slashes has the root \<open>//\<close>; one slash, or three and more, are the root \<open>/\<close>.
\<close>

definition path_join :: "path \<Rightarrow> string \<Rightarrow> path" where
  "path_join base s =
     (if startswith s ''/'' then
        (if startswith s ''//'' \<and> \<not> startswith s ''///'' then [] # parse_parts s
         else parse_parts s)
      else base @ parse_parts s)"

text \<open>\<open>Path.name\<close>, \<open>Path.suffix\<close> and \<open>Path.stem\<close>.\<close>

definition path_name :: "path \<Rightarrow> string" where
  "path_name p = (if p = [] then [] else last p)"

text \<open>\<open>name.rfind('.')\<close>: the index of the last dot, if there is one.\<close>

fun rfind_dot :: "string \<Rightarrow> nat option" where
  "rfind_dot [] = None"
| "rfind_dot (c # cs) =
     (case rfind_dot cs of
        Some i \<Rightarrow> Some (Suc i)
      | None \<Rightarrow> (if c = CHR ''.'' then Some 0 else None))"

definition name_suffix :: "string \<Rightarrow> string" where
  "name_suffix name =
     (case rfind_dot name of
        Some i \<Rightarrow> (if 0 < i \<and> i + 1 < length name then drop i name else [])
      | None \<Rightarrow> [])"

definition name_stem :: "string \<Rightarrow> string" where
  "name_stem name =
     (case rfind_dot name of
        Some i \<Rightarrow> (if 0 < i \<and> i + 1 < length name then take i name else name)
      | None \<Rightarrow> name)"

definition path_suffix :: "path \<Rightarrow> string" where
  "path_suffix p = name_suffix (path_name p)"

definition path_stem :: "path \<Rightarrow> string" where
  "path_stem p = name_stem (path_name p)"

text \<open>\<open>str(path)\<close> of an absolute path; the roots alone are \<open>/\<close> and \<open>//\<close>.\<close>

definition str_of_path :: "path \<Rightarrow> string" where
  "str_of_path p =
     (if p = [] then ''/'' else if p = [[]] then ''//''
      else concat (map (\<lambda>c. CHR ''/'' # c) p))"

text \<open>
  \<open>p.relative_to(b)\<close> is lexical: the components of \<open>p\<close> after those of \<open>b\<close>, and a
  \<open>ValueError\<close> (here \<open>None\<close>) when \<open>p\<close> does not start with \<open>b\<close> or has the other root.
\<close>

definition double_slash :: "path \<Rightarrow> bool" where
  "double_slash p = (case p of [] \<Rightarrow> False | x # xs \<Rightarrow> x = [])"

definition relative_to :: "path \<Rightarrow> path \<Rightarrow> path option" where
  "relative_to p b =
     (if prefix b p \<and> double_slash p = double_slash b then Some (drop (length b) p) else None)"

text \<open>The vault-relative string of a path, \<open>str(p.relative_to(root))\<close>.\<close>

definition str_of_rel :: "path \<Rightarrow> string" where
  "str_of_rel r = (if r = [] then ''.'' else drop 1 (str_of_path r))"


section \<open>The file system\<close>

text \<open>
  The file system is a tree without symbolic links. A directory lists its entries in the
  order in which \<open>os.scandir\<close> returns them. A file holds text, or bytes that are not UTF-8
  (\<open>read_text\<close> raises \<open>UnicodeDecodeError\<close>), or cannot be read (\<open>read_text\<close> raises
  \<open>OSError\<close>).
\<close>

datatype fcontent = Text string | Undecodable | Unreadable

datatype node = File fcontent | Dir "(string \<times> node) list"

datatype error = ValueError | UnicodeDecodeError | OSError | ReTemplate

text \<open>The node at a path without \<open>.\<close> and \<open>..\<close>.\<close>

fun get :: "node \<Rightarrow> path \<Rightarrow> node option" where
  "get n [] = Some n"
| "get (File c) (x # xs) = None"
| "get (Dir es) (x # xs) = (case map_of es x of None \<Rightarrow> None | Some n \<Rightarrow> get n xs)"

text \<open>
  The kernel's walk along a path: every component is looked up in the directory reached so
  far, \<open>..\<close> steps to its parent (the parent of \<open>/\<close> is \<open>/\<close>); the walk fails with
  \<open>ENOENT\<close> at a missing component and with \<open>ENOTDIR\<close> at a component looked up in a file.
  The result is the location reached. The kernel reads the root \<open>//\<close> as \<open>/\<close>: the empty
  component is passed over, as \<open>.\<close> is.
\<close>

datatype errno = ENOENT | ENOTDIR | EEXIST | EISDIR

fun walk :: "node \<Rightarrow> path \<Rightarrow> path \<Rightarrow> errno + path" where
  "walk fs cur [] = Inr cur"
| "walk fs cur (x # xs) =
     (case get fs cur of
        Some (Dir es) \<Rightarrow>
          if x = ''..'' then walk fs (butlast cur) xs
          else if x = ''.'' \<or> x = [] then walk fs cur xs
          else (case map_of es x of None \<Rightarrow> Inl ENOENT | Some n \<Rightarrow> walk fs (cur @ [x]) xs)
      | Some (File c) \<Rightarrow> Inl ENOTDIR
      | None \<Rightarrow> Inl ENOENT)"

definition stat :: "node \<Rightarrow> path \<Rightarrow> node option" where
  "stat fs p = (case walk fs [] p of Inl e \<Rightarrow> None | Inr q \<Rightarrow> get fs q)"

definition is_file :: "node \<Rightarrow> path \<Rightarrow> bool" where
  "is_file fs p = (case stat fs p of Some (File c) \<Rightarrow> True | _ \<Rightarrow> False)"

definition is_dir :: "node \<Rightarrow> path \<Rightarrow> bool" where
  "is_dir fs p = (case stat fs p of Some (Dir es) \<Rightarrow> True | _ \<Rightarrow> False)"

definition exists :: "node \<Rightarrow> path \<Rightarrow> bool" where
  "exists fs p = (stat fs p \<noteq> None)"

text \<open>
  The limits of the operating system. A system call fails with \<open>ENAMETOOLONG\<close> when its
  path string has \<open>PATH_MAX\<close> = 4096 bytes or more, and when it looks up a component of more
  than \<open>NAME_MAX\<close> = 255 bytes, counted in the UTF-8 of the file system encoding, where a
  code point from 128 on takes two bytes. pathlib passes that \<open>OSError\<close> on: \<open>is_file\<close> and
  \<open>is_dir\<close> raise it, and \<open>rglob\<close> raises it from the scan of a directory. \<open>stat\<close>,
  \<open>is_file\<close>, \<open>is_dir\<close> and the walk of \<open>rglob\<close> model the calls within these limits:
  \<open>within_limits p\<close> holds when a call on the path \<open>p\<close> stays within them, \<open>dirs_within p n\<close>
  when the scan of every directory of the tree \<open>n\<close> at \<open>p\<close> does, and
  \<open>listing_within_limits fs base\<close> when the test and the recursive scan of \<open>base\<close> do.
\<close>

definition utf8_length :: "string \<Rightarrow> nat" where
  "utf8_length s = length s + length (filter (\<lambda>c. 128 \<le> (of_char c :: nat)) s)"

definition NAME_MAX :: nat where
  "NAME_MAX = 255"

definition PATH_MAX :: nat where
  "PATH_MAX = 4096"

definition within_limits :: "path \<Rightarrow> bool" where
  "within_limits p =
     ((\<forall>c \<in> set p. utf8_length c \<le> NAME_MAX) \<and> utf8_length (str_of_path p) < PATH_MAX)"

fun dirs_within :: "path \<Rightarrow> node \<Rightarrow> bool"
  and entries_within :: "path \<Rightarrow> (string \<times> node) list \<Rightarrow> bool" where
  "dirs_within p (File c) = True"
| "dirs_within p (Dir es) = (within_limits p \<and> entries_within p es)"
| "entries_within p [] = True"
| "entries_within p (e # es) = (dirs_within (p @ [fst e]) (snd e) \<and> entries_within p es)"


text \<open>
  \<open>Path.resolve()\<close>: without symbolic links \<open>os.path.realpath\<close> is lexical, \<open>..\<close> removes
  the component before it and \<open>/..\<close> is \<open>/\<close>, whether or not the path exists. The result has
  the root \<open>/\<close>, also for a path with the root \<open>//\<close>.
\<close>

fun normpath :: "path \<Rightarrow> path \<Rightarrow> path" where
  "normpath acc [] = acc"
| "normpath acc (x # xs) =
     (if x = ''..'' then normpath (butlast acc) xs
      else if x = ''.'' \<or> x = [] then normpath acc xs
      else normpath (acc @ [x]) xs)"

definition resolve :: "path \<Rightarrow> path" where
  "resolve p = normpath [] p"

definition read_text :: "node \<Rightarrow> path \<Rightarrow> error + string" where
  "read_text fs p =
     (case stat fs p of
        Some (File (Text s)) \<Rightarrow> Inr s
      | Some (File Undecodable) \<Rightarrow> Inl UnicodeDecodeError
      | _ \<Rightarrow> Inl OSError)"

text \<open>\<open>os.listdir\<close>, as \<open>Path.iterdir\<close> uses it: the children of a directory.\<close>

definition iterdir :: "node \<Rightarrow> path \<Rightarrow> path list" where
  "iterdir fs p = (case stat fs p of Some (Dir es) \<Rightarrow> map (\<lambda>e. p @ [fst e]) es | _ \<Rightarrow> [])"

subsection \<open>Changing the tree\<close>

text \<open>
  \<open>put\<close> stores a node at a location whose parent is a directory: it replaces the entry of
  that name or adds one at the end of the directory. \<open>remove\<close> deletes the entry at a
  location. Both leave the tree as it is when the parent is missing.
\<close>

fun put :: "node \<Rightarrow> path \<Rightarrow> node \<Rightarrow> node" where
  "put n [] new = new"
| "put (File c) (x # xs) new = File c"
| "put (Dir es) (x # xs) new =
     (if xs = [] then
        (if x \<in> fst ` set es
         then Dir (map (\<lambda>e. if fst e = x then (x, new) else e) es)
         else Dir (es @ [(x, new)]))
      else Dir (map (\<lambda>e. if fst e = x then (x, put (snd e) xs new) else e) es))"

fun remove :: "node \<Rightarrow> path \<Rightarrow> node" where
  "remove n [] = n"
| "remove (File c) (x # xs) = File c"
| "remove (Dir es) (x # xs) =
     (if xs = [] then Dir (filter (\<lambda>e. fst e \<noteq> x) es)
      else Dir (map (\<lambda>e. if fst e = x then (x, remove (snd e) xs) else e) es))"

text \<open>
  \<open>os.mkdir\<close>: the parent is walked to, the last component must be new.
\<close>

definition os_mkdir :: "node \<Rightarrow> path \<Rightarrow> errno + node" where
  "os_mkdir fs p =
     (if p = [] then Inl EEXIST
      else case walk fs [] (butlast p) of
        Inl e \<Rightarrow> Inl e
      | Inr q \<Rightarrow>
          (case get fs q of
             Some (Dir es) \<Rightarrow>
               if last p = ''..'' \<or> last p = ''.'' \<or> last p \<in> fst ` set es then Inl EEXIST
               else Inr (put fs (q @ [last p]) (Dir []))
           | Some (File c) \<Rightarrow> Inl ENOTDIR
           | None \<Rightarrow> Inl ENOENT))"

text \<open>
  An operation that changes the file system returns its result, or the exception it raised,
  together with the file system it leaves behind: an exception does not undo what was
  written before it.

  \<open>Path.mkdir(parents=True, exist_ok=True)\<close>: on \<open>FileNotFoundError\<close> the parent is made
  first and \<open>os.mkdir\<close> is tried again; any other \<open>OSError\<close> is ignored when the path is a
  directory and raised otherwise.
\<close>

function mkdir_parents :: "node \<Rightarrow> path \<Rightarrow> (error + unit) \<times> node" where
  "mkdir_parents fs p =
     (case os_mkdir fs p of
        Inr fs' \<Rightarrow> (Inr (), fs')
      | Inl e \<Rightarrow>
          if e = ENOENT then
            (if p = [] then (Inl OSError, fs)
             else case mkdir_parents fs (butlast p) of
               (Inl e', fs1) \<Rightarrow> (Inl e', fs1)
             | (Inr u, fs1) \<Rightarrow>
                 (case os_mkdir fs1 p of
                    Inr fs2 \<Rightarrow> (Inr (), fs2)
                  | Inl e2 \<Rightarrow>
                      if e2 \<noteq> ENOENT \<and> is_dir fs1 p then (Inr (), fs1) else (Inl OSError, fs1)))
          else if is_dir fs p then (Inr (), fs) else (Inl OSError, fs))"
  by pat_completeness auto
termination
  by (relation "measure (\<lambda>(fs, p). length p)") auto

text \<open>
  \<open>Path.write_text\<close>: the parent is walked to; a file of that name is overwritten, a new
  name is added, a directory of that name raises \<open>IsADirectoryError\<close>. Permissions to write
  are not modelled.
\<close>

definition write_text :: "node \<Rightarrow> path \<Rightarrow> string \<Rightarrow> error + node" where
  "write_text fs p s =
     (if p = [] then Inl OSError
      else case walk fs [] (butlast p) of
        Inl e \<Rightarrow> Inl OSError
      | Inr q \<Rightarrow>
          (case get fs q of
             Some (Dir es) \<Rightarrow>
               if last p = ''..'' \<or> last p = ''.'' then Inl OSError
               else (case map_of es (last p) of
                       Some (Dir es') \<Rightarrow> Inl OSError
                     | _ \<Rightarrow> Inr (put fs (q @ [last p]) (File (Text s))))
           | _ \<Rightarrow> Inl OSError))"

text \<open>
  \<open>shutil.move(src, dst)\<close> where \<open>dst\<close> does not exist: \<open>os.rename\<close>, which takes the node
  at \<open>src\<close> out of its directory and enters it under the last component of \<open>dst\<close>.
\<close>

definition move_file :: "node \<Rightarrow> path \<Rightarrow> path \<Rightarrow> error + node" where
  "move_file fs src dst =
     (if dst = [] then Inl OSError
      else case (walk fs [] src, walk fs [] (butlast dst)) of
        (Inr s, Inr d) \<Rightarrow>
          (case (get fs s, get fs d) of
             (Some n, Some (Dir es)) \<Rightarrow>
               if s = [] \<or> last dst = ''..'' \<or> last dst = ''.'' then Inl OSError
               else Inr (put (remove fs s) (d @ [last dst]) n)
           | _ \<Rightarrow> Inl OSError)
      | _ \<Rightarrow> Inl OSError)"

section \<open>Globbing\<close>

text \<open>
  \<open>fnmatch\<close>, as pathlib compiles a pattern for the names of one directory: \<open>*\<close> stands
  for any run of characters, \<open>?\<close> for one character, \<open>[seq]\<close> for one character of the
  class and \<open>[!seq]\<close> for one outside it; a \<open>[\<close> without its \<open>]\<close> stands for itself. In a
  class \<open>a-b\<close> is a range, empty when \<open>b < a\<close>, and every other character stands for itself.
  The whole name has to match.
\<close>

datatype gtok = GStar | GAny | GLit char | GClass bool "(char \<times> char) list"

fun class_items :: "string \<Rightarrow> (char \<times> char) list" where
  "class_items (c # d # e # cs) =
     (if d = CHR ''-'' then (c, e) # class_items cs else (c, c) # class_items (d # e # cs))"
| "class_items (c # cs) = (c, c) # class_items cs"
| "class_items [] = []"

text \<open>
  The class that opens before \<open>cs\<close>: whether it is negated and its characters, when a
  closing \<open>]\<close> is found; a \<open>]\<close> right after the \<open>[\<close> or the \<open>[!\<close> belongs to the class.
\<close>

definition class_end :: "string \<Rightarrow> (bool \<times> string) option" where
  "class_end cs =
     (let neg = (take 1 cs = ''!'');
          a = (if neg then drop 1 cs else cs);
          fst_close = (take 1 a = '']'');
          b = (if fst_close then drop 1 a else a)
      in if dropWhile (\<lambda>c. c \<noteq> CHR '']'') b = [] then None
         else Some (neg, (if fst_close then '']'' else []) @ takeWhile (\<lambda>c. c \<noteq> CHR '']'') b))"

text \<open>The first argument counts the characters of the pattern still to be skipped.\<close>

fun glob_toks :: "nat \<Rightarrow> string \<Rightarrow> gtok list" where
  "glob_toks k [] = []"
| "glob_toks (Suc k) (c # cs) = glob_toks k cs"
| "glob_toks 0 (c # cs) =
     (if c = CHR ''*'' then GStar # glob_toks 0 cs
      else if c = CHR ''?'' then GAny # glob_toks 0 cs
      else if c = CHR ''['' then
        (case class_end cs of
           None \<Rightarrow> GLit c # glob_toks 0 cs
         | Some (neg, stuff) \<Rightarrow>
             GClass neg (class_items stuff)
               # glob_toks (length stuff + (if neg then 1 else 0) + 1) cs)
      else GLit c # glob_toks 0 cs)"

definition in_items :: "(char \<times> char) list \<Rightarrow> char \<Rightarrow> bool" where
  "in_items items c = (\<exists>r \<in> set items. fst r \<le> c \<and> c \<le> snd r)"

fun gmatch :: "gtok list \<Rightarrow> string \<Rightarrow> bool" where
  "gmatch [] s = (s = [])"
| "gmatch (GStar # ts) [] = gmatch ts []"
| "gmatch (GStar # ts) (c # cs) = (gmatch ts (c # cs) \<or> gmatch (GStar # ts) cs)"
| "gmatch (GAny # ts) [] = False"
| "gmatch (GAny # ts) (c # cs) = gmatch ts cs"
| "gmatch (GLit x # ts) [] = False"
| "gmatch (GLit x # ts) (c # cs) = (c = x \<and> gmatch ts cs)"
| "gmatch (GClass neg items # ts) [] = False"
| "gmatch (GClass neg items # ts) (c # cs) = ((in_items items c \<noteq> neg) \<and> gmatch ts cs)"

definition fnmatch :: "string \<Rightarrow> string \<Rightarrow> bool" where
  "fnmatch pat name = gmatch (glob_toks 0 pat) name"

definition is_wildcard_pattern :: "string \<Rightarrow> bool" where
  "is_wildcard_pattern pat =
     (CHR ''*'' \<in> set pat \<or> CHR ''?'' \<in> set pat \<or> CHR ''['' \<in> set pat)"

text \<open>
  pathlib's selector for a one-component pattern: \<open>**\<close> inside a component is a
  \<open>ValueError\<close>, a pattern with a wildcard character matches names with \<open>fnmatch\<close>, and any
  other pattern selects the child of exactly that name.
\<close>

definition make_selector :: "string \<Rightarrow> error + (string \<Rightarrow> bool)" where
  "make_selector pat =
     (if contains pat ''**'' then Inl ValueError
      else if is_wildcard_pattern pat then Inr (fnmatch pat)
      else Inr (\<lambda>name. name = pat))"

text \<open>
  \<open>Path.rglob(pattern)\<close> for a pattern of one component that is neither \<open>.\<close> nor \<open>..\<close> (the
  patterns of this program end in \<open>.md\<close>). The walk visits a directory before its
  subdirectories, these in the order of the directory's entries; in every directory visited
  it yields the selected children, files and directories alike. It descends into every
  directory, whatever its name.
\<close>

fun rglob_dir :: "(string \<Rightarrow> bool) \<Rightarrow> path \<Rightarrow> node \<Rightarrow> path list"
  and rglob_entries :: "(string \<Rightarrow> bool) \<Rightarrow> path \<Rightarrow> (string \<times> node) list \<Rightarrow> path list" where
  "rglob_dir m p (File c) = []"
| "rglob_dir m p (Dir es) =
     map (\<lambda>e. p @ [fst e]) (filter (\<lambda>e. m (fst e)) es) @ rglob_entries m p es"
| "rglob_entries m p [] = []"
| "rglob_entries m p (e # es) = rglob_dir m (p @ [fst e]) (snd e) @ rglob_entries m p es"

definition rglob :: "node \<Rightarrow> path \<Rightarrow> string \<Rightarrow> error + path list" where
  "rglob fs base pat =
     (case make_selector pat of
        Inl e \<Rightarrow> Inl e
      | Inr m \<Rightarrow>
          (case stat fs base of
             Some (Dir es) \<Rightarrow> Inr (rglob_dir m base (Dir es))
           | _ \<Rightarrow> Inr []))"


section \<open>The vault (vault.py)\<close>

record vault =
  root :: path

definition EXCLUDED_DIRS :: "string set" where
  "EXCLUDED_DIRS = {''.obsidian'', ''.trash'', ''.git'', ''.venv'', ''node_modules''}"

text \<open>
  \<open>Vault.__init__\<close>: the root is the resolved path, and it must be a directory.
\<close>

definition Vault :: "node \<Rightarrow> path \<Rightarrow> error + vault" where
  "Vault fs vault_path =
     (let r = resolve vault_path
      in if \<not> is_dir fs r then Inl ValueError else Inr \<lparr>root = r\<rparr>)"

definition is_within_vault :: "vault \<Rightarrow> path \<Rightarrow> bool" where
  "is_within_vault v p = startswith (str_of_path (resolve p)) (str_of_path (root v))"

text \<open>The first element that satisfies a test, as a \<open>for\<close> loop that returns finds it.\<close>

fun first_where :: "('a \<Rightarrow> bool) \<Rightarrow> 'a list \<Rightarrow> 'a option" where
  "first_where P [] = None"
| "first_where P (x # xs) = (if P x then Some x else first_where P xs)"

definition resolve_path :: "node \<Rightarrow> vault \<Rightarrow> string \<Rightarrow> error + path option" where
  "resolve_path fs v name_or_path0 =
     (let name_or_path = strip_slashes name_or_path0;
          candidate = path_join (root v) name_or_path
      in if is_file fs candidate \<and> is_within_vault v candidate then Inr (Some candidate)
         else
           let candidate2 = path_join (root v) (name_or_path @ ''.md'')
           in if \<not> endswith name_or_path ''.md'' \<and> is_file fs candidate2
                   \<and> is_within_vault v candidate2
              then Inr (Some candidate2)
              else
                let basename0 = path_name (parse_parts name_or_path);
                    basename = (if \<not> endswith basename0 ''.md'' then basename0 @ ''.md''
                                else basename0)
                in case rglob fs (root v) basename of
                     Inl e \<Rightarrow> Inl e
                   | Inr found \<Rightarrow>
                       let matches = filter (\<lambda>m. is_within_vault v m \<and> is_file fs m) found
                       in if length matches = 1 then Inr (Some (matches ! 0))
                          else if length matches > 1 then Inr (Some (sort matches ! 0))
                          else
                            (case rglob fs (root v) ''*.md'' of
                               Inl e \<Rightarrow> Inl e
                             | Inr ps \<Rightarrow>
                                 Inr (first_where
                                        (\<lambda>p. lower (path_name p) = lower basename
                                                \<and> is_within_vault v p) ps)))"

text \<open>
  \<open>ensure_path\<close> returns the path and makes the parent directories. An \<open>OSError\<close> of
  \<open>mkdir\<close> is not caught.
\<close>

definition ensure_path :: "node \<Rightarrow> vault \<Rightarrow> string \<Rightarrow> (error + path) \<times> node" where
  "ensure_path fs v vault_relative0 =
     (let vault_relative1 = strip_slashes vault_relative0;
          vault_relative = (if \<not> endswith vault_relative1 ''.md'' then vault_relative1 @ ''.md''
                            else vault_relative1);
          full = path_join (root v) vault_relative
      in if \<not> is_within_vault v full then (Inl ValueError, fs)
         else (case mkdir_parents fs (butlast full) of
                 (Inl e, fs') \<Rightarrow> (Inl e, fs')
               | (Inr u, fs') \<Rightarrow> (Inr full, fs')))"

definition should_include :: "vault \<Rightarrow> path \<Rightarrow> error + bool" where
  "should_include v p =
     (case relative_to p (root v) of
        None \<Rightarrow> Inl ValueError
      | Some parts \<Rightarrow> Inr (\<not> (\<exists>part \<in> set parts. part \<in> EXCLUDED_DIRS)))"

definition within_depth :: "path \<Rightarrow> path \<Rightarrow> int \<Rightarrow> error + bool" where
  "within_depth p base max_depth =
     (case relative_to p base of
        None \<Rightarrow> Inl ValueError
      | Some rel \<Rightarrow> Inr (int (length rel) \<le> max_depth))"

text \<open>
  The loops of \<open>iter_notes\<close> and \<open>iter_entries\<close> yield the paths that pass a test; a test
  that raises ends the iteration with the error.
\<close>

fun yield_where :: "('a \<Rightarrow> error + bool) \<Rightarrow> 'a list \<Rightarrow> error + 'a list" where
  "yield_where t [] = Inr []"
| "yield_where t (x # xs) =
     (case t x of
        Inl e \<Rightarrow> Inl e
      | Inr b \<Rightarrow>
          (case yield_where t xs of
             Inl e \<Rightarrow> Inl e
           | Inr ys \<Rightarrow> Inr (if b then x # ys else ys)))"

text \<open>\<open>a and b\<close> on tests that may raise: \<open>b\<close> is evaluated only when \<open>a\<close> is true.\<close>

definition and_then :: "error + bool \<Rightarrow> error + bool \<Rightarrow> error + bool" where
  "and_then a b = (case a of Inl e \<Rightarrow> Inl e | Inr x \<Rightarrow> if x then b else Inr False)"

definition iter_notes :: "node \<Rightarrow> vault \<Rightarrow> string \<Rightarrow> bool \<Rightarrow> int \<Rightarrow> error + path list" where
  "iter_notes fs v folder recursive max_depth =
     (let base = (if folder \<noteq> [] then path_join (root v) folder else root v)
      in if \<not> is_dir fs base then Inr []
         else if recursive then
           (case rglob fs base ''*.md'' of
              Inl e \<Rightarrow> Inl e
            | Inr ps \<Rightarrow>
                yield_where
                  (\<lambda>p. and_then (should_include v p) (within_depth p base max_depth))
                  (sort ps))
         else
           yield_where
             (\<lambda>p. and_then (Inr (is_file fs p \<and> path_suffix p = ''.md'')) (should_include v p))
             (sort (iterdir fs base)))"

definition iter_entries :: "node \<Rightarrow> vault \<Rightarrow> string \<Rightarrow> bool \<Rightarrow> int \<Rightarrow> error + path list" where
  "iter_entries fs v folder recursive max_depth =
     (let base = (if folder \<noteq> [] then path_join (root v) folder else root v)
      in if \<not> is_dir fs base then Inr []
         else if recursive then
           (case rglob fs base ''*'' of
              Inl e \<Rightarrow> Inl e
            | Inr ps \<Rightarrow>
                yield_where
                  (\<lambda>p. and_then (should_include v p) (within_depth p base max_depth))
                  (sort ps))
         else yield_where (\<lambda>p. should_include v p) (sort (iterdir fs base)))"

definition note_count :: "node \<Rightarrow> vault \<Rightarrow> error + nat" where
  "note_count fs v =
     (case iter_notes fs v [] True 100 of Inl e \<Rightarrow> Inl e | Inr ns \<Rightarrow> Inr (length ns))"

section \<open>Regular expressions\<close>

text \<open>
  The patterns of this program are built from literal text, negated character classes
  repeated greedily (\<open>[^...]+\<close>, \<open>[^...]*\<close>), optional parts, alternatives and capturing
  groups. \<open>NoneOf cs n\<close> is the class \<open>[^cs]\<close> repeated \<open>n\<close> or more times.
\<close>

datatype rx =
    Lit string
  | NoneOf "char list" nat
  | Opt rx
  | Seq rx rx
  | Alt rx rx
  | Grp nat rx

type_synonym caps = "(nat \<times> string) list"

text \<open>
  The matcher is the backtracking matcher of \<open>re\<close>: it tries the first alternative first,
  the optional part before its absence and the longest repetition before the shorter ones,
  and it gives the rest of the text to a continuation, whose failure makes it try the next
  choice. The first flag is \<open>re.IGNORECASE\<close>.
\<close>

definition same_text :: "bool \<Rightarrow> string \<Rightarrow> string \<Rightarrow> bool" where
  "same_text ic a b = (if ic then lower a = lower b else a = b)"

definition in_class :: "bool \<Rightarrow> char \<Rightarrow> char list \<Rightarrow> bool" where
  "in_class ic c cs = (if ic then lower_char c \<in> lower_char ` set cs else c \<in> set cs)"

fun try_run :: "nat \<Rightarrow> nat \<Rightarrow> string \<Rightarrow> (string \<Rightarrow> 'a option) \<Rightarrow> 'a option" where
  "try_run lo 0 s k = (if lo = 0 then k s else None)"
| "try_run lo (Suc m) s k =
     (if Suc m < lo then None
      else (case k (drop (Suc m) s) of Some r \<Rightarrow> Some r | None \<Rightarrow> try_run lo m s k))"

fun rmatch :: "bool \<Rightarrow> rx \<Rightarrow> string \<Rightarrow> caps
    \<Rightarrow> (string \<Rightarrow> caps \<Rightarrow> (caps \<times> string) option) \<Rightarrow> (caps \<times> string) option" where
  "rmatch ic (Lit l) s g k =
     (if length l \<le> length s \<and> same_text ic (take (length l) s) l
      then k (drop (length l) s) g else None)"
| "rmatch ic (NoneOf cs lo) s g k =
     try_run lo (length (takeWhile (\<lambda>c. \<not> in_class ic c cs) s)) s (\<lambda>s'. k s' g)"
| "rmatch ic (Opt r) s g k =
     (case rmatch ic r s g k of Some x \<Rightarrow> Some x | None \<Rightarrow> k s g)"
| "rmatch ic (Seq a b) s g k = rmatch ic a s g (\<lambda>s' g'. rmatch ic b s' g' k)"
| "rmatch ic (Alt a b) s g k =
     (case rmatch ic a s g k of Some x \<Rightarrow> Some x | None \<Rightarrow> rmatch ic b s g k)"
| "rmatch ic (Grp i r) s g k =
     rmatch ic r s g (\<lambda>s' g'. k s' ((i, take (length s - length s') s) # g'))"

text \<open>A match that starts at the beginning of the text: its groups and the text after it.\<close>

definition match_at :: "bool \<Rightarrow> rx \<Rightarrow> string \<Rightarrow> (caps \<times> string) option" where
  "match_at ic r s = rmatch ic r s [] (\<lambda>s' g. Some (g, s'))"

definition group :: "caps \<Rightarrow> nat \<Rightarrow> string" where
  "group g i = (case map_of g i of Some x \<Rightarrow> x | None \<Rightarrow> [])"

text \<open>
  \<open>findall\<close> for a pattern with one group, and \<open>sub\<close>: the text is scanned from the left,
  a match is taken where it starts first, and the scan goes on after the match. (After a
  match of no characters the scan moves on by one character; the patterns of this program
  match at least \<open>[[\<close>.)
\<close>

function findall :: "bool \<Rightarrow> rx \<Rightarrow> string \<Rightarrow> string list" where
  "findall ic r s =
     (case match_at ic r s of
        Some (g, rest) \<Rightarrow>
          group g 1 #
            (if length rest < length s then findall ic r rest
             else (case s of [] \<Rightarrow> [] | c # cs \<Rightarrow> findall ic r cs))
      | None \<Rightarrow> (case s of [] \<Rightarrow> [] | c # cs \<Rightarrow> findall ic r cs))"
  by pat_completeness auto
termination
  by (relation "measure (\<lambda>(ic, r, s). length s)") auto

function re_sub :: "bool \<Rightarrow> rx \<Rightarrow> (caps \<Rightarrow> string) \<Rightarrow> string \<Rightarrow> string" where
  "re_sub ic r repl s =
     (case match_at ic r s of
        Some (g, rest) \<Rightarrow>
          repl g @
            (if length rest < length s then re_sub ic r repl rest
             else (case s of [] \<Rightarrow> [] | c # cs \<Rightarrow> c # re_sub ic r repl cs))
      | None \<Rightarrow> (case s of [] \<Rightarrow> [] | c # cs \<Rightarrow> c # re_sub ic r repl cs))"
  by pat_completeness auto
termination
  by (relation "measure (\<lambda>(ic, r, repl, s). length s)") auto


section \<open>Wikilinks (links.py)\<close>

text \<open>
  \<^verbatim>\<open>WIKILINK_PATTERN = re.compile(r"!?\[\[([^\]|#^]+)(?:#[^\]|]*)?(?:\|[^\]]+)?\]\]")\<close>
\<close>

definition WIKILINK_PATTERN :: rx where
  "WIKILINK_PATTERN =
     Seq (Opt (Lit ''!''))
    (Seq (Lit ''[['')
    (Seq (Grp 1 (NoneOf '']|#^'' 1))
    (Seq (Opt (Seq (Lit ''#'') (NoneOf '']|'' 0)))
    (Seq (Opt (Seq (Lit ''|'') (NoneOf '']'' 1)))
         (Lit '']]'')))))"

definition parse_wikilinks :: "string \<Rightarrow> string list" where
  "parse_wikilinks content = findall False WIKILINK_PATTERN content"

text \<open>
  The results of \<open>get_outgoing_links\<close> and \<open>get_backlinks\<close> are the texts they format: the
  error message, the message that there are no links, or the header with one line for each
  link. A line of outgoing links holds the target and the vault-relative path it resolves
  to, or the mark of a broken link; a line of backlinks holds the vault-relative path of the
  linking note and the line of context, when there is one.
\<close>

datatype outgoing =
    OutNotFound string
  | OutNone path
  | OutLinks path "(string \<times> path option) list"

datatype backlinks =
    BackNotFound string
  | BackNone path
  | BackLinks path "(path \<times> string option) list"

text \<open>The loop that keeps the first of the targets that are equal but for case.\<close>

fun unique_targets :: "string list \<Rightarrow> string list \<Rightarrow> string list" where
  "unique_targets seen [] = []"
| "unique_targets seen (t # ts) =
     (if lower t \<notin> set seen then t # unique_targets (lower t # seen) ts
      else unique_targets seen ts)"

fun outgoing_lines :: "node \<Rightarrow> vault \<Rightarrow> string list
    \<Rightarrow> error + (string \<times> path option) list" where
  "outgoing_lines fs v [] = Inr []"
| "outgoing_lines fs v (target # ts) =
     (case resolve_path fs v target of
        Inl e \<Rightarrow> Inl e
      | Inr None \<Rightarrow>
          (case outgoing_lines fs v ts of
             Inl e \<Rightarrow> Inl e
           | Inr ls \<Rightarrow> Inr ((target, None) # ls))
      | Inr (Some target_path) \<Rightarrow>
          (case relative_to target_path (root v) of
             None \<Rightarrow> Inl ValueError
           | Some target_rel \<Rightarrow>
               (case outgoing_lines fs v ts of
                  Inl e \<Rightarrow> Inl e
                | Inr ls \<Rightarrow> Inr ((target, Some target_rel) # ls))))"

definition get_outgoing_links :: "node \<Rightarrow> vault \<Rightarrow> string \<Rightarrow> error + outgoing" where
  "get_outgoing_links fs v path =
     (case resolve_path fs v path of
        Inl e \<Rightarrow> Inl e
      | Inr None \<Rightarrow> Inr (OutNotFound path)
      | Inr (Some resolved) \<Rightarrow>
          (case read_text fs resolved of
             Inl e \<Rightarrow> Inl e
           | Inr content \<Rightarrow>
               (case relative_to resolved (root v) of
                  None \<Rightarrow> Inl ValueError
                | Some vault_rel \<Rightarrow>
                    let targets = parse_wikilinks content
                    in if targets = [] then Inr (OutNone vault_rel)
                       else (case outgoing_lines fs v (unique_targets [] targets) of
                               Inl e \<Rightarrow> Inl e
                             | Inr ls \<Rightarrow> Inr (OutLinks vault_rel ls)))))"

text \<open>The test of \<open>get_backlinks\<close> on one target of a note.\<close>

definition link_matches :: "string \<Rightarrow> string \<Rightarrow> bool" where
  "link_matches target_name t =
     (lower t = lower target_name \<or> endswith (lower t) (''/'' @ lower target_name))"

text \<open>The first line of the note that contains \<open>[[t\<close>, stripped, if there is one.\<close>

definition context_line :: "string \<Rightarrow> string \<Rightarrow> string option" where
  "context_line content t =
     map_option strip (first_where (\<lambda>line. contains line (''[['' @ t)) (splitlines content))"

text \<open>
  The inner loop over the targets of one note: at the first target that matches it adds
  one result and breaks.
\<close>

fun backlink_of :: "string \<Rightarrow> string \<Rightarrow> string list \<Rightarrow> string option option" where
  "backlink_of target_name content [] = None"
| "backlink_of target_name content (t # ts) =
     (if link_matches target_name t then Some (context_line content t)
      else backlink_of target_name content ts)"

fun backlinks_loop :: "node \<Rightarrow> vault \<Rightarrow> path \<Rightarrow> string \<Rightarrow> path list
    \<Rightarrow> error + (path \<times> string option) list" where
  "backlinks_loop fs v resolved target_name [] = Inr []"
| "backlinks_loop fs v resolved target_name (note # notes) =
     (if note = resolved then backlinks_loop fs v resolved target_name notes
      else case read_text fs note of
        Inl e \<Rightarrow>
          if e = UnicodeDecodeError \<or> e = OSError
          then backlinks_loop fs v resolved target_name notes else Inl e
      | Inr content \<Rightarrow>
          (case backlink_of target_name content (parse_wikilinks content) of
             None \<Rightarrow> backlinks_loop fs v resolved target_name notes
           | Some ctx \<Rightarrow>
               (case relative_to note (root v) of
                  None \<Rightarrow> Inl ValueError
                | Some note_rel \<Rightarrow>
                    (case backlinks_loop fs v resolved target_name notes of
                       Inl e \<Rightarrow> Inl e
                     | Inr results \<Rightarrow> Inr ((note_rel, ctx) # results)))))"

definition get_backlinks :: "node \<Rightarrow> vault \<Rightarrow> string \<Rightarrow> error + backlinks" where
  "get_backlinks fs v path =
     (case resolve_path fs v path of
        Inl e \<Rightarrow> Inl e
      | Inr None \<Rightarrow> Inr (BackNotFound path)
      | Inr (Some resolved) \<Rightarrow>
          (case relative_to resolved (root v) of
             None \<Rightarrow> Inl ValueError
           | Some target_rel \<Rightarrow>
               (case iter_notes fs v [] True 100 of
                  Inl e \<Rightarrow> Inl e
                | Inr notes \<Rightarrow>
                    (case backlinks_loop fs v resolved (path_stem resolved) notes of
                       Inl e \<Rightarrow> Inl e
                     | Inr results \<Rightarrow>
                         if results = [] then Inr (BackNone target_rel)
                         else Inr (BackLinks target_rel results)))))"

text \<open>
  The pattern of a rename,
  \<^verbatim>\<open>re.compile(r"(\[\[)" + re.escape(old_name) + r"(\]\]|\||\#)", re.IGNORECASE)\<close>,
  and the substitution \<^verbatim>\<open>pattern.sub(r"\g<1>" + new_name + r"\2", content)\<close>.

  A replacement without a backslash is the first group, the new name and the second group.
  A replacement with a backslash is read by \<open>re\<close> as a template with escapes, which raises
  \<open>re.error\<close> or expands them; this case lies outside the model, which marks it with
  \<open>ReTemplate\<close>.
\<close>

definition rename_pattern :: "string \<Rightarrow> rx" where
  "rename_pattern old_name =
     Seq (Grp 1 (Lit ''[[''))
    (Seq (Lit old_name)
         (Grp 2 (Alt (Lit '']]'') (Alt (Lit ''|'') (Lit ''#'')))))"

definition sub_links :: "string \<Rightarrow> string \<Rightarrow> string \<Rightarrow> error + string" where
  "sub_links old_name new_name content =
     (if CHR 0x5C \<in> set new_name then Inl ReTemplate
      else Inr (re_sub True (rename_pattern old_name)
                  (\<lambda>g. group g 1 @ new_name @ group g 2) content))"

fun update_loop :: "string \<Rightarrow> string \<Rightarrow> node \<Rightarrow> path list \<Rightarrow> (error + nat) \<times> node" where
  "update_loop old_name new_name fs [] = (Inr 0, fs)"
| "update_loop old_name new_name fs (note # notes) =
     (case read_text fs note of
        Inl e \<Rightarrow>
          if e = UnicodeDecodeError \<or> e = OSError
          then update_loop old_name new_name fs notes else (Inl e, fs)
      | Inr content \<Rightarrow>
          (case sub_links old_name new_name content of
             Inl e \<Rightarrow> (Inl e, fs)
           | Inr new_content \<Rightarrow>
               if new_content \<noteq> content then
                 (case write_text fs note new_content of
                    Inl e \<Rightarrow> (Inl e, fs)
                  | Inr fs' \<Rightarrow>
                      (case update_loop old_name new_name fs' notes of
                         (Inl e, fs'') \<Rightarrow> (Inl e, fs'')
                       | (Inr updated, fs'') \<Rightarrow> (Inr (updated + 1), fs'')))
               else update_loop old_name new_name fs notes))"

definition update_wikilinks :: "node \<Rightarrow> vault \<Rightarrow> string \<Rightarrow> string \<Rightarrow> (error + nat) \<times> node" where
  "update_wikilinks fs v old_name new_name =
     (case iter_notes fs v [] True 100 of
        Inl e \<Rightarrow> (Inl e, fs)
      | Inr notes \<Rightarrow> update_loop old_name new_name fs notes)"


section \<open>Moving a note (notes.py)\<close>

text \<open>
  The loop of \<open>move_note\<close>: the note at the destination is passed over, and \<open>read_text\<close>
  stands outside any \<open>try\<close>.
\<close>

fun move_loop :: "string \<Rightarrow> string \<Rightarrow> path \<Rightarrow> node \<Rightarrow> path list \<Rightarrow> (error + nat) \<times> node" where
  "move_loop old_name new_name resolved_dst fs [] = (Inr 0, fs)"
| "move_loop old_name new_name resolved_dst fs (note # notes) =
     (if note = resolved_dst then move_loop old_name new_name resolved_dst fs notes
      else case read_text fs note of
        Inl e \<Rightarrow> (Inl e, fs)
      | Inr content \<Rightarrow>
          (case sub_links old_name new_name content of
             Inl e \<Rightarrow> (Inl e, fs)
           | Inr new_content \<Rightarrow>
               if new_content \<noteq> content then
                 (case write_text fs note new_content of
                    Inl e \<Rightarrow> (Inl e, fs)
                  | Inr fs' \<Rightarrow>
                      (case move_loop old_name new_name resolved_dst fs' notes of
                         (Inl e, fs'') \<Rightarrow> (Inl e, fs'')
                       | (Inr updated, fs'') \<Rightarrow> (Inr (updated + 1), fs'')))
               else move_loop old_name new_name resolved_dst fs notes))"

text \<open>
  The results of \<open>move_note\<close>: its three error messages, and the message of a move with the
  two vault-relative paths and the number of notes rewritten.
\<close>

datatype moved =
    SourceNotFound string
  | PathEscapes
  | DestinationExists string
  | Moved path path nat

definition move_note :: "node \<Rightarrow> vault \<Rightarrow> string \<Rightarrow> string \<Rightarrow> (error + moved) \<times> node" where
  "move_note fs v source destination =
     (case resolve_path fs v source of
        Inl e \<Rightarrow> (Inl e, fs)
      | Inr None \<Rightarrow> (Inr (SourceNotFound source), fs)
      | Inr (Some resolved_src) \<Rightarrow>
          (case ensure_path fs v destination of
             (Inl e, fs1) \<Rightarrow> if e = ValueError then (Inr PathEscapes, fs1) else (Inl e, fs1)
           | (Inr resolved_dst, fs1) \<Rightarrow>
               if exists fs1 resolved_dst then (Inr (DestinationExists destination), fs1)
               else
                 let old_name = path_stem resolved_src;
                     new_name = path_stem resolved_dst
                 in (case move_file fs1 resolved_src resolved_dst of
                       Inl e \<Rightarrow> (Inl e, fs1)
                     | Inr fs2 \<Rightarrow>
                         (case (if old_name \<noteq> new_name then
                                  (case iter_notes fs2 v [] True 100 of
                                     Inl e \<Rightarrow> (Inl e, fs2)
                                   | Inr notes \<Rightarrow>
                                       move_loop old_name new_name resolved_dst fs2 notes)
                                else (Inr 0, fs2)) of
                            (Inl e, fs3) \<Rightarrow> (Inl e, fs3)
                          | (Inr updated_count, fs3) \<Rightarrow>
                              (case (relative_to resolved_src (root v),
                                     relative_to resolved_dst (root v)) of
                                 (Some src_rel, Some dst_rel) \<Rightarrow>
                                   (Inr (Moved src_rel dst_rel updated_count), fs3)
                               | _ \<Rightarrow> (Inl ValueError, fs3))))))"

section \<open>Well-formed file systems\<close>

text \<open>
  The names of a directory are file names (not empty, not \<open>.\<close> or \<open>..\<close>, without a slash)
  and no name occurs twice in a directory.
\<close>

definition valid_name :: "string \<Rightarrow> bool" where
  "valid_name n = (n \<noteq> [] \<and> n \<noteq> ''.'' \<and> n \<noteq> ''..'' \<and> CHR ''/'' \<notin> set n)"

fun wf_node :: "node \<Rightarrow> bool"
  and wf_entries :: "(string \<times> node) list \<Rightarrow> bool" where
  "wf_node (File c) = True"
| "wf_node (Dir es) = (distinct (map fst es) \<and> wf_entries es)"
| "wf_entries [] = True"
| "wf_entries (e # es) = (valid_name (fst e) \<and> wf_node (snd e) \<and> wf_entries es)"


section \<open>Example vaults\<close>

definition home_vault :: vault where
  "home_vault = \<lparr>root = [''home'', ''vault'']\<rparr>"

definition top_vault :: vault where
  "top_vault = \<lparr>root = [''vault'']\<rparr>"

text \<open>A vault \<open>/home/vault\<close> beside a directory \<open>/home/vault2\<close>.\<close>

definition sibling_fs :: node where
  "sibling_fs =
     Dir [(''home'', Dir [(''vault'', Dir [(''README.md'', File (Text ''# My Vault''))]),
                          (''vault2'', Dir [(''secret.md'', File (Text ''s''))])])]"

text \<open>A vault \<open>/vault\<close> with a note in its trash.\<close>

definition trash_fs :: node where
  "trash_fs = Dir [(''vault'', Dir [(''README.md'', File (Text ''# My Vault'')),
                                    (''.trash'', Dir [(''gone.md'', File (Text ''deleted''))])])]"

text \<open>A vault with a note that is not UTF-8.\<close>

definition binary_fs :: node where
  "binary_fs = Dir [(''vault'', Dir [(''ideas.md'', File (Text ''# Ideas'')),
                                     (''photo.md'', File Undecodable),
                                     (''spec.md'', File (Text ''See also [[ideas]].''))])]"




subsection \<open>The match of a wikilink in closed form\<close>

text \<open>
  What the matcher computes on \<open>WIKILINK_PATTERN\<close>, written as a direct scan (the two are
  proved equal below): the text after \<open>]]\<close>; after an alias \<open>|...\<close>, which must not be
  empty, and \<open>]]\<close>; after a heading \<open>#...\<close> and the rest; and the target with the text that
  follows the whole link.
\<close>

definition target_char :: "char \<Rightarrow> bool" where
  "target_char c = (c \<notin> set '']|#^'')"

definition heading_char :: "char \<Rightarrow> bool" where
  "heading_char c = (c \<notin> set '']|'')"

definition alias_char :: "char \<Rightarrow> bool" where
  "alias_char c = (c \<notin> set '']'')"

fun closing :: "string \<Rightarrow> string option" where
  "closing (a # b # r) = (if a = CHR '']'' \<and> b = CHR '']'' then Some r else None)"
| "closing [a] = None"
| "closing [] = None"

fun after_alias :: "string \<Rightarrow> string option" where
  "after_alias (c # cs) =
     (if c = CHR ''|'' then
        (if takeWhile alias_char cs = [] then None else closing (dropWhile alias_char cs))
      else closing (c # cs))"
| "after_alias [] = None"

fun after_heading :: "string \<Rightarrow> string option" where
  "after_heading (c # cs) =
     (if c = CHR ''#'' then after_alias (dropWhile heading_char cs) else after_alias (c # cs))"
| "after_heading [] = None"

fun link_at :: "string \<Rightarrow> (string \<times> string) option" where
  "link_at (a # b # u) =
     (if a = CHR ''['' \<and> b = CHR ''['' \<and> takeWhile target_char u \<noteq> []
      then map_option (Pair (takeWhile target_char u)) (after_heading (dropWhile target_char u))
      else None)"
| "link_at [a] = None"
| "link_at [] = None"

fun wikilink_at :: "string \<Rightarrow> (string \<times> string) option" where
  "wikilink_at (c # cs) = (if c = CHR ''!'' then link_at cs else link_at (c # cs))"
| "wikilink_at [] = None"

text \<open>
  The shapes of a wikilink as the specification lists them: \<open>[[target]]\<close>,
  \<open>[[target#heading]]\<close>, \<open>[[target|alias]]\<close> and \<open>[[target#heading|alias]]\<close>, with a target
  that is not empty and holds none of \<open>]\<close>, \<open>|\<close>, \<open>#\<close>, \<open>^\<close>, a heading (or block reference)
  without \<open>]\<close> and \<open>|\<close>, and an alias that is not empty and holds no \<open>]\<close>.
\<close>

definition wikilink :: "string \<Rightarrow> string option \<Rightarrow> string option \<Rightarrow> string" where
  "wikilink t h a =
     ''[['' @ t @ (case h of None \<Rightarrow> [] | Some x \<Rightarrow> CHR ''#'' # x)
            @ (case a of None \<Rightarrow> [] | Some x \<Rightarrow> CHR ''|'' # x) @ '']]''"

definition target_ok :: "string \<Rightarrow> bool" where
  "target_ok t = (t \<noteq> [] \<and> (\<forall>c \<in> set t. c \<notin> set '']|#^''))"

definition heading_ok :: "string option \<Rightarrow> bool" where
  "heading_ok h = (case h of None \<Rightarrow> True | Some x \<Rightarrow> \<forall>c \<in> set x. c \<notin> set '']|'')"

definition alias_ok :: "string option \<Rightarrow> bool" where
  "alias_ok a = (case a of None \<Rightarrow> True | Some x \<Rightarrow> x \<noteq> [] \<and> CHR '']'' \<notin> set x)"


subsection \<open>Locations\<close>

text \<open>
  A path is canonical when it has the root \<open>/\<close> and no component \<open>.\<close> or \<open>..\<close>; \<open>file_at\<close>
  is the content of the file at a canonical path.
\<close>

definition canonical :: "path \<Rightarrow> bool" where
  "canonical p = (''.'' \<notin> set p \<and> ''..'' \<notin> set p \<and> [] \<notin> set p)"

definition file_at :: "node \<Rightarrow> path \<Rightarrow> fcontent option" where
  "file_at fs p = (case get fs p of Some (File c) \<Rightarrow> Some c | _ \<Rightarrow> None)"

text \<open>
  \<open>entry_below fs base rel\<close>: the directory \<open>base\<close> holds an entry, a file or a directory,
  at the relative path \<open>rel\<close>.
\<close>

definition entry_below :: "node \<Rightarrow> path \<Rightarrow> path \<Rightarrow> bool" where
  "entry_below fs base rel =
     (rel \<noteq> [] \<and> (case stat fs base of Some n \<Rightarrow> get n rel \<noteq> None | None \<Rightarrow> False))"





text \<open>
  A vault \<open>/vault\<close> whose entries are not in the order of their names, with notes one, two
  and three levels down, a note in \<open>.git\<close> and a file that is not a note, beside a directory
  \<open>/srv\<close>.
\<close>

definition listing_fs :: node where
  "listing_fs =
     Dir [(''vault'',
           Dir [(''z.md'', File (Text ''z'')),
                (''b'', Dir [(''n.md'', File (Text ''n'')),
                             (''deep'', Dir [(''far.md'', File (Text ''far''))]),
                             (''pic.png'', File Undecodable)]),
                (''.git'', Dir [(''cfg.md'', File (Text ''cfg''))]),
                (''a.md'', File (Text ''a''))]),
          (''srv'', Dir [(''x.md'', File (Text ''x''))])]"


text \<open>A vault with a note that links to \<open>note\<close> three times.\<close>

definition multi_fs :: node where
  "multi_fs =
     Dir [(''vault'',
           Dir [(''note.md'', File (Text ''target'')),
                (''multi.md'',
                 File (Text ''one [[note]]\<newline>two [[Note|again]] and [[x/note]]''))])]"





section \<open>Properties\<close>

subsection \<open>Paths that leave the vault\<close>

text \<open>
  Claim C1. A reference whose resolved form lies outside the vault root is to resolve to
  nothing, and \<open>ensure_path\<close> is to fail on it. \<open>is_within_vault\<close> compares the texts of the
  two paths, so \<open>/home/vault2/secret.md\<close> counts as within \<open>/home/vault\<close>: for the vault
  \<open>/home/vault\<close> the reference \<open>../vault2/secret.md\<close> resolves to a file of the sibling
  directory \<open>/home/vault2\<close>, which is no descendant of the root, and \<open>ensure_path\<close> returns a
  path there.
\<close>

theorem resolve_path_leaves_vault:
  "Vault sibling_fs [''home'', ''vault''] = Inr home_vault
   \<and> resolve_path sibling_fs home_vault ''../vault2/secret.md''
       = Inr (Some [''home'', ''vault'', ''..'', ''vault2'', ''secret.md''])
   \<and> resolve [''home'', ''vault'', ''..'', ''vault2'', ''secret.md'']
       = [''home'', ''vault2'', ''secret.md'']
   \<and> \<not> prefix (root home_vault) [''home'', ''vault2'', ''secret.md'']
   \<and> fst (ensure_path sibling_fs home_vault ''../vault2/new'')
       = Inr [''home'', ''vault'', ''..'', ''vault2'', ''new.md'']
   \<and> resolve [''home'', ''vault'', ''..'', ''vault2'', ''new.md'']
       = [''home'', ''vault2'', ''new.md'']"
  by code_simp

subsection \<open>Excluded directories and resolution by name\<close>

text \<open>
  Claim C3. Resolution by basename is never to return a file inside an excluded directory.
  \<open>resolve_path\<close> searches with \<open>rglob\<close> and keeps every file within the vault; it does not
  ask \<open>should_include\<close>, as \<open>iter_notes\<close> does. The bare name \<open>gone\<close> resolves to
  \<open>.trash/gone.md\<close>, a path that \<open>should_include\<close> rejects and \<open>iter_notes\<close> leaves out.
\<close>

theorem resolve_path_finds_trash:
  "resolve_path trash_fs top_vault ''gone'' = Inr (Some [''vault'', ''.trash'', ''gone.md''])
   \<and> should_include top_vault [''vault'', ''.trash'', ''gone.md''] = Inr False
   \<and> iter_notes trash_fs top_vault [] True 100 = Inr [[''vault'', ''README.md'']]"
  by code_simp

subsection \<open>A note that cannot be read\<close>

text \<open>
  Claim C7. A note that cannot be decoded is to be skipped by every scan over the vault.
  \<open>update_wikilinks\<close> skips it. \<open>move_note\<close> reads every note outside a \<open>try\<close>: with the
  note \<open>photo.md\<close> that is not UTF-8 in the vault, moving \<open>ideas\<close> to \<open>brainstorm\<close> raises
  \<open>UnicodeDecodeError\<close> after the file has been moved and before \<open>spec.md\<close> is rewritten.
\<close>

theorem move_note_aborts_on_undecodable:
  "move_note binary_fs top_vault ''ideas'' ''brainstorm'' =
     (Inl UnicodeDecodeError,
      Dir [(''vault'', Dir [(''photo.md'', File Undecodable),
                            (''spec.md'', File (Text ''See also [[ideas]].'')),
                            (''brainstorm.md'', File (Text ''# Ideas''))])])
   \<and> update_wikilinks binary_fs top_vault ''ideas'' ''brainstorm'' =
     (Inr 1,
      Dir [(''vault'', Dir [(''ideas.md'', File (Text ''# Ideas'')),
                            (''photo.md'', File Undecodable),
                            (''spec.md'', File (Text ''See also [[brainstorm]].''))])])"
  by code_simp

subsection \<open>A reference with and without the extension\<close>







subsection \<open>Extraction of wikilinks\<close>

text \<open>The matcher on a greedy repetition.\<close>

lemma try_run_None:
  "(\<And>n. n \<le> m \<Longrightarrow> k (drop n s) = None) \<Longrightarrow> try_run lo m s k = None"
  by (induction m) auto

lemma try_run_short: "m < lo \<Longrightarrow> try_run lo m s k = None"
  by (cases m) auto

lemma try_run_first:
  assumes "lo \<le> m" and "\<And>n. n < m \<Longrightarrow> k (drop n s) = None"
  shows "try_run lo m s k = k (drop m s)"
proof (cases m)
  case 0
  with assms show ?thesis by simp
next
  case (Suc m')
  have "try_run lo m' s k = None"
    by (rule try_run_None) (simp add: assms(2) Suc)
  with Suc assms(1) show ?thesis by (simp split: option.splits)
qed

lemma run_char:
  assumes "n < length (takeWhile P s)"
  shows "\<exists>c rest. drop n s = c # rest \<and> P c"
proof -
  have n: "n < length s" using assms length_takeWhile_le[of P s] by (meson le_trans not_le)
  have "P (s ! n)"
    using assms by (metis nth_mem set_takeWhileD takeWhile_nth)
  then show ?thesis using n by (metis Cons_nth_drop_Suc)
qed

text \<open>A greedy run whose shorter forms all fail in the continuation.\<close>

lemma try_run_greedy:
  assumes "\<And>c r. P c \<Longrightarrow> k (c # r) = None"
  shows "try_run lo (length (takeWhile P s)) s k
           = (if length (takeWhile P s) < lo then None else k (dropWhile P s))"
proof (cases "length (takeWhile P s) < lo")
  case True
  then show ?thesis by (simp add: try_run_short)
next
  case False
  have "try_run lo (length (takeWhile P s)) s k = k (drop (length (takeWhile P s)) s)"
  proof (rule try_run_first)
    show "lo \<le> length (takeWhile P s)" using False by simp
  next
    fix n assume "n < length (takeWhile P s)"
    from run_char[OF this] assms show "k (drop n s) = None" by auto
  qed
  with False show ?thesis by (simp add: dropWhile_eq_drop)
qed

declare rmatch.simps [simp del]

lemma rmatch_Lit1:
  "rmatch False (Lit [a]) s g k = (case s of [] \<Rightarrow> None | c # cs \<Rightarrow> if c = a then k cs g else None)"
  by (cases s) (auto simp: same_text_def rmatch.simps)

lemma rmatch_Lit2:
  "rmatch False (Lit [a, b]) s g k =
     (case s of c # d # cs \<Rightarrow> if c = a \<and> d = b then k cs g else None | _ \<Rightarrow> None)"
  by (cases s; cases "tl s") (auto simp: same_text_def rmatch.simps)

lemma rmatch_closing:
  "rmatch False (Lit '']]'') s g k = (case closing s of Some r \<Rightarrow> k r g | None \<Rightarrow> None)"
  by (cases s; cases "tl s") (auto simp: same_text_def rmatch.simps)

lemma class_alias: "(\<lambda>c. \<not> in_class False c '']'') = alias_char"
  by (auto simp: in_class_def alias_char_def)

lemma class_heading: "(\<lambda>c. \<not> in_class False c '']|'') = heading_char"
  by (auto simp: in_class_def heading_char_def)

lemma class_target: "(\<lambda>c. \<not> in_class False c '']|#^'') = target_char"
  by (auto simp: in_class_def target_char_def)

lemma closing_not: "alias_char c \<Longrightarrow> closing (c # r) = None"
  by (cases r) (auto simp: alias_char_def)

lemma after_alias_not: "heading_char c \<Longrightarrow> after_alias (c # r) = None"
  by (cases r) (auto simp: heading_char_def)

lemma after_heading_not: "target_char c \<Longrightarrow> after_heading (c # r) = None"
  by (cases r) (auto simp: target_char_def)

lemma rmatch_alias:
  "rmatch False (Seq (Opt (Seq (Lit ''|'') (NoneOf '']'' 1))) (Lit '']]'')) s g k
     = (case after_alias s of Some r \<Rightarrow> k r g | None \<Rightarrow> None)"
proof -
  let ?K = "\<lambda>s'. case closing s' of Some r \<Rightarrow> k r g | None \<Rightarrow> None"
  have run: "\<And>cs. try_run 1 (length (takeWhile alias_char cs)) cs ?K
      = (if length (takeWhile alias_char cs) < 1 then None else ?K (dropWhile alias_char cs))"
    by (rule try_run_greedy) (simp add: closing_not)
  show ?thesis
  proof (cases s)
    case Nil
    then show ?thesis by (simp add: rmatch_Lit1 rmatch_closing rmatch.simps(2-4))
  next
    case (Cons c cs)
    show ?thesis
    proof (cases "c = CHR ''|''")
      case False
      then show ?thesis
        by (simp add: Cons rmatch_Lit1 rmatch_closing rmatch.simps(2-4))
    next
      case True
      have fb: "closing (CHR ''|'' # cs) = None" by (simp add: closing_not alias_char_def)
      show ?thesis
        using run[of cs]
        by (simp add: Cons True rmatch_Lit1 rmatch_closing class_alias fb rmatch.simps(2-4)
                 del: closing.simps split: option.splits)
    qed
  qed
qed


lemma rmatch_heading:
  "rmatch False
     (Seq (Opt (Seq (Lit ''#'') (NoneOf '']|'' 0)))
          (Seq (Opt (Seq (Lit ''|'') (NoneOf '']'' 1))) (Lit '']]''))) s g k
     = (case after_heading s of Some r \<Rightarrow> k r g | None \<Rightarrow> None)"
proof -
  let ?K = "\<lambda>s'. case after_alias s' of Some r \<Rightarrow> k r g | None \<Rightarrow> None"
  have run: "\<And>cs. try_run 0 (length (takeWhile heading_char cs)) cs ?K
      = (if length (takeWhile heading_char cs) < 0 then None else ?K (dropWhile heading_char cs))"
    by (rule try_run_greedy) (simp add: after_alias_not del: after_alias.simps)
  have unf: "rmatch False
     (Seq (Opt (Seq (Lit ''#'') (NoneOf '']|'' 0)))
          (Seq (Opt (Seq (Lit ''|'') (NoneOf '']'' 1))) (Lit '']]''))) s g k
     = (case rmatch False (Seq (Lit ''#'') (NoneOf '']|'' 0)) s g
               (\<lambda>s' g'. case after_alias s' of Some r \<Rightarrow> k r g' | None \<Rightarrow> None) of
          Some x \<Rightarrow> Some x | None \<Rightarrow> ?K s)"
    by (subst rmatch.simps(4), subst rmatch.simps(3), simp only: rmatch_alias)
  show ?thesis
  proof (cases s)
    case Nil
    then show ?thesis unfolding unf by (simp add: rmatch_Lit1 rmatch.simps(2,4))
  next
    case (Cons c cs)
    show ?thesis
    proof (cases "c = CHR ''#''")
      case False
      then show ?thesis unfolding unf
        by (simp add: Cons rmatch_Lit1 rmatch.simps(2,4) del: after_alias.simps)
    next
      case True
      have fb: "after_alias (CHR ''#'' # cs) = None"
        by (simp add: after_alias_not heading_char_def del: after_alias.simps)
      show ?thesis unfolding unf
        using run[of cs]
        by (simp add: Cons True rmatch_Lit1 class_heading fb rmatch.simps(2,4)
                 del: after_alias.simps split: option.splits)
    qed
  qed
qed

lemma rmatch_target:
  "rmatch False
     (Seq (Grp 1 (NoneOf '']|#^'' 1))
     (Seq (Opt (Seq (Lit ''#'') (NoneOf '']|'' 0)))
          (Seq (Opt (Seq (Lit ''|'') (NoneOf '']'' 1))) (Lit '']]'')))) s g k
     = (if takeWhile target_char s = [] then None
        else (case after_heading (dropWhile target_char s) of
                Some r \<Rightarrow> k r ((1, takeWhile target_char s) # g) | None \<Rightarrow> None))"
proof -
  let ?K = "\<lambda>s'. case after_heading s' of
                     Some r \<Rightarrow> k r ((1, take (length s - length s') s) # g) | None \<Rightarrow> None"
  let ?m = "length (takeWhile target_char s)"
  have unf: "rmatch False
     (Seq (Grp 1 (NoneOf '']|#^'' 1))
     (Seq (Opt (Seq (Lit ''#'') (NoneOf '']|'' 0)))
          (Seq (Opt (Seq (Lit ''|'') (NoneOf '']'' 1))) (Lit '']]'')))) s g k
      = try_run 1 ?m s ?K"
    by (subst rmatch.simps(4), subst rmatch.simps(6), subst rmatch.simps(2),
        simp only: rmatch_heading class_target)
  have run: "try_run 1 ?m s ?K = (if ?m < 1 then None else ?K (dropWhile target_char s))"
    by (rule try_run_greedy) (simp add: after_heading_not del: after_heading.simps)
  have cap: "take (length s - length (dropWhile target_char s)) s = takeWhile target_char s"
  proof -
    have "length s - length (dropWhile target_char s) = ?m"
      by (metis add_diff_cancel_right' length_append takeWhile_dropWhile_id)
    then show ?thesis by (simp add: takeWhile_eq_take[symmetric])
  qed
  show ?thesis unfolding unf run by (simp add: cap cong: option.case_cong)
qed

lemma rmatch_link:
  "rmatch False
    (Seq (Lit ''[['')
    (Seq (Grp 1 (NoneOf '']|#^'' 1))
    (Seq (Opt (Seq (Lit ''#'') (NoneOf '']|'' 0)))
    (Seq (Opt (Seq (Lit ''|'') (NoneOf '']'' 1)))
         (Lit '']]''))))) s [] (\<lambda>s' g. Some (g, s'))
     = map_option (\<lambda>(t, r). ([(1, t)], r)) (link_at s)"
proof -
  have unf: "rmatch False
    (Seq (Lit ''[['')
    (Seq (Grp 1 (NoneOf '']|#^'' 1))
    (Seq (Opt (Seq (Lit ''#'') (NoneOf '']|'' 0)))
    (Seq (Opt (Seq (Lit ''|'') (NoneOf '']'' 1)))
         (Lit '']]''))))) s [] (\<lambda>s' g. Some (g, s'))
     = rmatch False (Lit ''[['') s []
         (\<lambda>u g. if takeWhile target_char u = [] then None
                 else (case after_heading (dropWhile target_char u) of
                         Some r \<Rightarrow> Some ((1, takeWhile target_char u) # g, r) | None \<Rightarrow> None))"
    by (subst rmatch.simps(4), simp only: rmatch_target)
  show ?thesis unfolding unf
    by (cases s; cases "tl s")
       (auto simp: rmatch_Lit2 simp del: after_heading.simps split: option.splits)
qed

lemma link_at_not: "c \<noteq> CHR ''['' \<Longrightarrow> link_at (c # r) = None"
  by (cases r) auto

lemma link_at_not': "CHR ''['' \<noteq> c \<Longrightarrow> link_at (c # r) = None"
  by (cases r) auto

lemma match_at_wikilink:
  "match_at False WIKILINK_PATTERN s
     = map_option (\<lambda>(t, r). ([(1, t)], r)) (wikilink_at s)"
proof -
  let ?R1 = "Seq (Lit ''[['')
    (Seq (Grp 1 (NoneOf '']|#^'' 1))
    (Seq (Opt (Seq (Lit ''#'') (NoneOf '']|'' 0)))
    (Seq (Opt (Seq (Lit ''|'') (NoneOf '']'' 1)))
         (Lit '']]''))))"
  let ?k = "\<lambda>s' g. Some (g, s')"
  have unf: "match_at False WIKILINK_PATTERN s
      = (case rmatch False (Lit ''!'') s [] (\<lambda>s' g'. rmatch False ?R1 s' g' ?k) of
           Some x \<Rightarrow> Some x | None \<Rightarrow> rmatch False ?R1 s [] ?k)"
    unfolding match_at_def WIKILINK_PATTERN_def
    by (subst rmatch.simps(4), subst rmatch.simps(3), simp)
  show ?thesis
  proof (cases s)
    case Nil
    then show ?thesis unfolding unf rmatch_link
      by (simp add: rmatch_Lit1)
  next
    case (Cons c cs)
    show ?thesis
    proof (cases "c = CHR ''!''")
      case True
      have "rmatch False (Lit ''!'') s [] (\<lambda>s' g'. rmatch False ?R1 s' g' ?k)
              = rmatch False ?R1 cs [] ?k"
        by (simp add: Cons True rmatch_Lit1)
      moreover have "link_at s = None" by (simp add: Cons True link_at_not)
      ultimately show ?thesis unfolding unf rmatch_link
        by (simp add: Cons True split: option.splits)
    next
      case False
      have "rmatch False (Lit ''!'') s [] (\<lambda>s' g'. rmatch False ?R1 s' g' ?k) = None"
        using False by (simp add: Cons rmatch_Lit1)
      then show ?thesis unfolding unf rmatch_link
        using False by (simp add: Cons)
    qed
  qed
qed

subsection \<open>Shape of a match\<close>

lemma closing_Some: "closing s = Some r \<Longrightarrow> s = '']]'' @ r"
  by (cases s; cases "tl s") (auto split: if_splits)

lemma after_alias_Some:
  assumes "after_alias s = Some r"
  shows "\<exists>q. s = q @ r \<and> q \<noteq> [] \<and> hd q \<in> {CHR '']'', CHR ''|''}"
proof (cases s)
  case Nil
  with assms show ?thesis by simp
next
  case (Cons c cs)
  show ?thesis
  proof (cases "c = CHR ''|''")
    case True
    with assms Cons have "closing (dropWhile alias_char cs) = Some r"
      by (simp split: if_splits)
    then have "dropWhile alias_char cs = '']]'' @ r" by (rule closing_Some)
    then have "s = (CHR ''|'' # takeWhile alias_char cs @ '']]'') @ r"
      using Cons True by (metis append.assoc append_Cons takeWhile_dropWhile_id)
    then show ?thesis by (intro exI[of _ "CHR ''|'' # takeWhile alias_char cs @ '']]''"]) simp
  next
    case False
    with assms Cons have "closing s = Some r" by simp
    then have "s = '']]'' @ r" by (rule closing_Some)
    then show ?thesis by (intro exI[of _ "'']]''"]) simp
  qed
qed

lemma after_heading_Some:
  assumes "after_heading s = Some r"
  shows "\<exists>q. s = q @ r \<and> q \<noteq> [] \<and> hd q \<in> {CHR '']'', CHR ''|'', CHR ''#''}"
proof (cases s)
  case Nil
  with assms show ?thesis by simp
next
  case (Cons c cs)
  show ?thesis
  proof (cases "c = CHR ''#''")
    case True
    with assms Cons have "after_alias (dropWhile heading_char cs) = Some r" by simp
    from after_alias_Some[OF this] obtain q where "dropWhile heading_char cs = q @ r" by blast
    then have "s = (CHR ''#'' # takeWhile heading_char cs @ q) @ r"
      using Cons True by (metis append.assoc append_Cons takeWhile_dropWhile_id)
    then show ?thesis by (intro exI[of _ "CHR ''#'' # takeWhile heading_char cs @ q"]) simp
  next
    case False
    with assms Cons have "after_alias s = Some r" by simp
    from after_alias_Some[OF this] show ?thesis by auto
  qed
qed

lemma target_ok_takeWhile:
  "takeWhile target_char u \<noteq> [] \<Longrightarrow> target_ok (takeWhile target_char u)"
  by (auto simp: target_ok_def dest!: set_takeWhileD simp: target_char_def)

lemma link_at_Some:
  assumes "link_at s = Some (t, r)"
  shows "\<exists>q. s = ''[['' @ t @ q @ r \<and> target_ok t \<and> q \<noteq> []
             \<and> hd q \<in> {CHR '']'', CHR ''|'', CHR ''#''}"
proof -
  from assms obtain u where s: "s = CHR ''['' # CHR ''['' # u"
    by (cases s rule: link_at.cases) (simp_all del: after_heading.simps split: if_splits)
  from assms have ne: "takeWhile target_char u \<noteq> []"
    and m: "map_option (Pair (takeWhile target_char u))
              (after_heading (dropWhile target_char u)) = Some (t, r)"
    unfolding s by (simp_all del: after_heading.simps split: if_splits)
  from m have t: "t = takeWhile target_char u"
    and ah: "after_heading (dropWhile target_char u) = Some r"
    by auto
  from after_heading_Some[OF ah] obtain q where q: "dropWhile target_char u = q @ r" "q \<noteq> []"
    "hd q \<in> {CHR '']'', CHR ''|'', CHR ''#''}" by blast
  have u: "u = t @ q @ r" using q(1) t by (metis takeWhile_dropWhile_id)
  have ok: "target_ok t" using ne t target_ok_takeWhile by simp
  have "s = ''[['' @ t @ q @ r" using s u by simp
  with ok q(2,3) show ?thesis by blast
qed

lemma wikilink_at_Some:
  assumes "wikilink_at s = Some (t, r)"
  shows "\<exists>b q. s = b @ ''[['' @ t @ q @ r \<and> target_ok t \<and> q \<noteq> []
             \<and> hd q \<in> {CHR '']'', CHR ''|'', CHR ''#''}"
proof (cases s)
  case Nil
  with assms show ?thesis by simp
next
  case (Cons c cs)
  show ?thesis
  proof (cases "c = CHR ''!''")
    case True
    with assms Cons have "link_at cs = Some (t, r)" by simp
    from link_at_Some[OF this] obtain q where "cs = ''[['' @ t @ q @ r" "target_ok t" "q \<noteq> []"
      "hd q \<in> {CHR '']'', CHR ''|'', CHR ''#''}" by blast
    then show ?thesis using Cons True by (intro exI[of _ "''!''"] exI[of _ q]) simp
  next
    case False
    with assms Cons have "link_at s = Some (t, r)" by simp
    from link_at_Some[OF this] show ?thesis by (metis append_Nil)
  qed
qed

lemma wikilink_at_shorter:
  assumes "wikilink_at s = Some (t, r)"
  shows "length r < length s"
proof -
  from wikilink_at_Some[OF assms] obtain b q where "s = b @ ''[['' @ t @ q @ r" by blast
  then have "length s = length b + 2 + length t + length q + length r" by simp
  then show ?thesis by simp
qed

lemma parse_wikilinks_unfold:
  "parse_wikilinks s =
     (case wikilink_at s of
        Some (t, rest) \<Rightarrow> t # parse_wikilinks rest
      | None \<Rightarrow> (case s of [] \<Rightarrow> [] | c # cs \<Rightarrow> parse_wikilinks cs))"
proof (cases "wikilink_at s")
  case None
  then show ?thesis
    unfolding parse_wikilinks_def
    by (subst findall.simps) (simp add: match_at_wikilink)
next
  case (Some p)
  obtain t r where p: "p = (t, r)" by (cases p)
  have "length r < length s" using Some p wikilink_at_shorter by simp
  then show ?thesis
    unfolding parse_wikilinks_def
    by (subst findall.simps) (simp add: match_at_wikilink Some p group_def)
qed

lemma parse_wikilinks_Nil [simp]: "parse_wikilinks [] = []"
  by (subst parse_wikilinks_unfold) simp

subsection \<open>A link at the head of a text\<close>

lemma takeWhile_stop:
  "\<forall>c \<in> set t. P c \<Longrightarrow> \<not> P x \<Longrightarrow> takeWhile P (t @ x # r) = t"
  by (induction t) auto

lemma dropWhile_stop:
  "\<forall>c \<in> set t. P c \<Longrightarrow> \<not> P x \<Longrightarrow> dropWhile P (t @ x # r) = x # r"
  by (induction t) auto

lemma after_alias_wikilink:
  assumes "alias_ok a"
  shows "after_alias ((case a of None \<Rightarrow> [] | Some x \<Rightarrow> CHR ''|'' # x) @ '']]'' @ rest) = Some rest"
proof (cases a)
  case None
  then show ?thesis by simp
next
  case (Some x)
  with assms have x: "x \<noteq> []" "\<forall>c \<in> set x. alias_char c"
    by (auto simp: alias_ok_def alias_char_def)
  have "takeWhile alias_char (x @ CHR '']'' # CHR '']'' # rest) = x"
    "dropWhile alias_char (x @ CHR '']'' # CHR '']'' # rest) = CHR '']'' # CHR '']'' # rest"
    using x(2) by (simp_all add: takeWhile_stop dropWhile_stop alias_char_def)
  with x(1) Some show ?thesis by simp
qed

lemma after_heading_wikilink:
  assumes "heading_ok h" "alias_ok a"
  shows "after_heading ((case h of None \<Rightarrow> [] | Some x \<Rightarrow> CHR ''#'' # x)
           @ (case a of None \<Rightarrow> [] | Some x \<Rightarrow> CHR ''|'' # x) @ '']]'' @ rest) = Some rest"
proof -
  let ?A = "(case a of None \<Rightarrow> [] | Some x \<Rightarrow> CHR ''|'' # x) @ '']]'' @ rest"
  obtain y ys where A: "?A = y # ys" "y = CHR ''|'' \<or> y = CHR '']''"
    by (cases a) auto
  show ?thesis
  proof (cases h)
    case None
    have "after_heading ?A = after_alias ?A"
      using A by (auto simp del: after_alias.simps)
    with None after_alias_wikilink[OF assms(2)] show ?thesis by simp
  next
    case (Some x)
    with assms have x: "\<forall>c \<in> set x. heading_char c"
      by (auto simp: heading_ok_def heading_char_def)
    have "dropWhile heading_char (x @ ?A) = ?A"
      unfolding A(1) using x A(2) by (intro dropWhile_stop) (auto simp: heading_char_def)
    with Some after_alias_wikilink[OF assms(2)] show ?thesis
      by (simp del: after_alias.simps)
  qed
qed

lemma link_at_wikilink:
  assumes "target_ok t" "heading_ok h" "alias_ok a"
  shows "link_at (wikilink t h a @ rest) = Some (t, rest)"
proof -
  let ?Q = "(case h of None \<Rightarrow> [] | Some x \<Rightarrow> CHR ''#'' # x)
           @ (case a of None \<Rightarrow> [] | Some x \<Rightarrow> CHR ''|'' # x) @ '']]'' @ rest"
  obtain y ys where Q: "?Q = y # ys" "y = CHR ''#'' \<or> y = CHR ''|'' \<or> y = CHR '']''"
    by (cases h; cases a) auto
  from assms(1) have t: "t \<noteq> []" "\<forall>c \<in> set t. target_char c"
    by (auto simp: target_ok_def target_char_def)
  have tw: "takeWhile target_char (t @ ?Q) = t" "dropWhile target_char (t @ ?Q) = ?Q"
    unfolding Q(1) using t(2) Q(2)
    by (auto intro!: takeWhile_stop dropWhile_stop simp: target_char_def)
  have "wikilink t h a @ rest = CHR ''['' # CHR ''['' # t @ ?Q"
    by (simp add: wikilink_def)
  then show ?thesis
    using tw t(1) after_heading_wikilink[OF assms(2,3), of rest]
    by (simp del: after_heading.simps)
qed

lemma wikilink_at_wikilink:
  assumes "target_ok t" "heading_ok h" "alias_ok a"
  shows "wikilink_at (wikilink t h a @ rest) = Some (t, rest)"
proof -
  obtain X where X: "wikilink t h a @ rest = CHR ''['' # X"
    by (simp add: wikilink_def)
  have "wikilink_at (CHR ''['' # X) = link_at (CHR ''['' # X)"
    by (simp del: link_at.simps)
  then show ?thesis using link_at_wikilink[OF assms, of rest] unfolding X by simp
qed

lemma parse_wikilinks_sound:
  "t \<in> set (parse_wikilinks s) \<Longrightarrow>
     target_ok t \<and> (\<exists>u d w. s = u @ ''[['' @ t @ d # w \<and> d \<in> {CHR '']'', CHR ''|'', CHR ''#''})"
proof (induction "length s" arbitrary: s rule: less_induct)
  case less
  show ?case
  proof (cases "wikilink_at s")
    case None
    then obtain c cs where s: "s = c # cs" and t: "t \<in> set (parse_wikilinks cs)"
      using less.prems by (subst (asm) parse_wikilinks_unfold) (cases s; simp)
    from less.hyps[of cs] s t obtain u d w where "target_ok t" "cs = u @ ''[['' @ t @ d # w"
      "d \<in> {CHR '']'', CHR ''|'', CHR ''#''}" by auto
    then show ?thesis using s by (intro conjI exI[of _ "c # u"] exI[of _ d] exI[of _ w]) auto
  next
    case (Some p)
    obtain t' r where p: "p = (t', r)" by (cases p)
    from wikilink_at_Some[OF Some[unfolded p]] obtain b q where
      bq: "s = b @ ''[['' @ t' @ q @ r" "target_ok t'" "q \<noteq> []"
          "hd q \<in> {CHR '']'', CHR ''|'', CHR ''#''}" by blast
    from less.prems Some p have "t = t' \<or> t \<in> set (parse_wikilinks r)"
      by (subst (asm) parse_wikilinks_unfold) auto
    then show ?thesis
    proof
      assume "t = t'"
      moreover obtain d q' where "q = d # q'" using bq(3) by (cases q) auto
      ultimately show ?thesis using bq
        by (intro conjI exI[of _ b] exI[of _ d] exI[of _ "q' @ r"]) auto
    next
      assume t: "t \<in> set (parse_wikilinks r)"
      have "length r < length s" using Some p wikilink_at_shorter by simp
      from less.hyps[OF this t] obtain u d w where "target_ok t" "r = u @ ''[['' @ t @ d # w"
        "d \<in> {CHR '']'', CHR ''|'', CHR ''#''}" by auto
      then show ?thesis using bq(1)
        by (intro conjI exI[of _ "b @ ''[['' @ t' @ q @ u"] exI[of _ d] exI[of _ w]) auto
    qed
  qed
qed

lemma after_alias_shape:
  assumes "after_alias s = Some r"
  shows "\<exists>a. alias_ok a \<and> s = (case a of None \<Rightarrow> [] | Some x \<Rightarrow> CHR ''|'' # x) @ '']]'' @ r"
proof (cases s)
  case Nil
  with assms show ?thesis by simp
next
  case (Cons c cs)
  show ?thesis
  proof (cases "c = CHR ''|''")
    case True
    with assms Cons have ne: "takeWhile alias_char cs \<noteq> []"
      and cl: "closing (dropWhile alias_char cs) = Some r"
      by (simp_all split: if_splits)
    from cl have "dropWhile alias_char cs = '']]'' @ r" by (rule closing_Some)
    then have "cs = takeWhile alias_char cs @ '']]'' @ r"
      by (metis takeWhile_dropWhile_id)
    then have s: "s = (CHR ''|'' # takeWhile alias_char cs) @ '']]'' @ r"
      using Cons True by simp
    have "\<forall>c \<in> set (takeWhile alias_char cs). alias_char c"
      by (auto dest: set_takeWhileD)
    then have ok: "alias_ok (Some (takeWhile alias_char cs))"
      using ne by (auto simp: alias_ok_def alias_char_def)
    show ?thesis
      by (rule exI[of _ "Some (takeWhile alias_char cs)"]) (use ok s in simp)
  next
    case False
    with assms Cons have "closing s = Some r" by simp
    then have "s = '']]'' @ r" by (rule closing_Some)
    then show ?thesis by (intro exI[of _ None]) (simp add: alias_ok_def)
  qed
qed

lemma after_heading_shape:
  assumes "after_heading s = Some r"
  shows "\<exists>h a. heading_ok h \<and> alias_ok a
           \<and> s = (case h of None \<Rightarrow> [] | Some x \<Rightarrow> CHR ''#'' # x)
                 @ (case a of None \<Rightarrow> [] | Some x \<Rightarrow> CHR ''|'' # x) @ '']]'' @ r"
proof (cases s)
  case Nil
  with assms show ?thesis by simp
next
  case (Cons c cs)
  show ?thesis
  proof (cases "c = CHR ''#''")
    case True
    with assms Cons have "after_alias (dropWhile heading_char cs) = Some r" by simp
    from after_alias_shape[OF this] obtain a where a: "alias_ok a"
      "dropWhile heading_char cs = (case a of None \<Rightarrow> [] | Some x \<Rightarrow> CHR ''|'' # x) @ '']]'' @ r"
      by blast
    have "cs = takeWhile heading_char cs @ dropWhile heading_char cs" by simp
    then have s: "s = (CHR ''#'' # takeWhile heading_char cs)
                 @ (case a of None \<Rightarrow> [] | Some x \<Rightarrow> CHR ''|'' # x) @ '']]'' @ r"
      using Cons True a(2) by simp
    have "\<forall>c \<in> set (takeWhile heading_char cs). heading_char c"
      by (auto dest: set_takeWhileD)
    then have ok: "heading_ok (Some (takeWhile heading_char cs))"
      by (auto simp: heading_ok_def heading_char_def)
    show ?thesis
      by (rule exI[of _ "Some (takeWhile heading_char cs)"], rule exI[of _ a]) (use ok a(1) s in simp)
  next
    case False
    with assms Cons have "after_alias s = Some r" by simp
    from after_alias_shape[OF this] obtain a where a: "alias_ok a"
      "s = (case a of None \<Rightarrow> [] | Some x \<Rightarrow> CHR ''|'' # x) @ '']]'' @ r"
      by blast
    show ?thesis
      by (rule exI[of _ None], rule exI[of _ a]) (use a in \<open>simp add: heading_ok_def\<close>)
  qed
qed

lemma link_at_shape:
  assumes "link_at s = Some (t, r)"
  shows "\<exists>h a. target_ok t \<and> heading_ok h \<and> alias_ok a \<and> s = wikilink t h a @ r"
proof -
  from assms obtain u where s: "s = CHR ''['' # CHR ''['' # u"
    by (cases s rule: link_at.cases) (simp_all del: after_heading.simps split: if_splits)
  from assms have ne: "takeWhile target_char u \<noteq> []"
    and m: "map_option (Pair (takeWhile target_char u))
              (after_heading (dropWhile target_char u)) = Some (t, r)"
    unfolding s by (simp_all del: after_heading.simps split: if_splits)
  from m have t: "t = takeWhile target_char u"
    and ah: "after_heading (dropWhile target_char u) = Some r"
    by auto
  from after_heading_shape[OF ah] obtain h a where ha: "heading_ok h" "alias_ok a"
    "dropWhile target_char u = (case h of None \<Rightarrow> [] | Some x \<Rightarrow> CHR ''#'' # x)
                 @ (case a of None \<Rightarrow> [] | Some x \<Rightarrow> CHR ''|'' # x) @ '']]'' @ r"
    by blast
  have "u = t @ dropWhile target_char u" using t by simp
  then have "s = wikilink t h a @ r" using s ha(3) by (simp add: wikilink_def)
  moreover have "target_ok t" using ne t target_ok_takeWhile by simp
  ultimately show ?thesis using ha(1,2) by blast
qed

lemma wikilink_at_shape:
  assumes "wikilink_at s = Some (t, r)"
  shows "\<exists>bang h a. (bang = [] \<or> bang = ''!'') \<and> target_ok t \<and> heading_ok h \<and> alias_ok a
           \<and> s = bang @ wikilink t h a @ r"
proof (cases s)
  case Nil
  with assms show ?thesis by simp
next
  case (Cons c cs)
  show ?thesis
  proof (cases "c = CHR ''!''")
    case True
    with assms Cons have "link_at cs = Some (t, r)" by simp
    from link_at_shape[OF this] obtain h a where "target_ok t" "heading_ok h" "alias_ok a"
      "cs = wikilink t h a @ r" by blast
    then show ?thesis using Cons True
      by (intro exI[of _ "''!''"] exI[of _ h] exI[of _ a]) simp
  next
    case False
    with assms Cons have "link_at s = Some (t, r)" by simp
    from link_at_shape[OF this] obtain h a where "target_ok t" "heading_ok h" "alias_ok a"
      "s = wikilink t h a @ r" by blast
    then show ?thesis
      by (intro exI[of _ "[]"] exI[of _ h] exI[of _ a]) simp
  qed
qed

lemma wikilink_at_token:
  assumes "bang = [] \<or> bang = ''!''" "target_ok t" "heading_ok h" "alias_ok a"
  shows "wikilink_at (bang @ wikilink t h a @ rest) = Some (t, rest)"
  using assms(1)
proof
  assume "bang = []"
  then show ?thesis using wikilink_at_wikilink[OF assms(2-4)] by simp
next
  assume "bang = ''!''"
  then show ?thesis using link_at_wikilink[OF assms(2-4), of rest] by simp
qed

lemma parse_wikilinks_determined:
  fixes pw :: "string \<Rightarrow> string list"
  assumes nil: "pw [] = []"
    and tok: "\<forall>bang t h a rest.
         (bang = [] \<or> bang = ''!'') \<and> target_ok t \<and> heading_ok h \<and> alias_ok a
         \<longrightarrow> pw (bang @ wikilink t h a @ rest) = t # pw rest"
    and skip: "\<forall>c cs.
         (\<forall>bang t h a rest.
            (bang = [] \<or> bang = ''!'') \<and> target_ok t \<and> heading_ok h \<and> alias_ok a
            \<longrightarrow> c # cs \<noteq> bang @ wikilink t h a @ rest)
         \<longrightarrow> pw (c # cs) = pw cs"
  shows "pw s = parse_wikilinks s"
proof (induction "length s" arbitrary: s rule: less_induct)
  case less
  show ?case
  proof (cases "wikilink_at s")
    case (Some p)
    obtain t r where p: "p = (t, r)" by (cases p)
    have at: "wikilink_at s = Some (t, r)" using Some p by simp
    from wikilink_at_shape[OF at] obtain bang h a where
      d: "bang = [] \<or> bang = ''!''" "target_ok t" "heading_ok h" "alias_ok a"
         "s = bang @ wikilink t h a @ r" by blast
    have "pw s = t # pw r" using tok d by blast
    moreover have "length r < length s" using at by (rule wikilink_at_shorter)
    then have "pw r = parse_wikilinks r" by (rule less.hyps)
    moreover have "parse_wikilinks s = t # parse_wikilinks r"
      by (subst parse_wikilinks_unfold) (simp add: at)
    ultimately show ?thesis by simp
  next
    case None
    show ?thesis
    proof (cases s)
      case Nil
      then show ?thesis using nil by simp
    next
      case (Cons c cs)
      have no: "\<forall>bang t h a rest.
            (bang = [] \<or> bang = ''!'') \<and> target_ok t \<and> heading_ok h \<and> alias_ok a
            \<longrightarrow> c # cs \<noteq> bang @ wikilink t h a @ rest"
      proof (intro allI impI notI)
        fix bang t h a rest
        assume ok: "(bang = [] \<or> bang = ''!'') \<and> target_ok t \<and> heading_ok h \<and> alias_ok a"
          and eq: "c # cs = bang @ wikilink t h a @ rest"
        from ok have "wikilink_at (bang @ wikilink t h a @ rest) = Some (t, rest)"
          by (simp add: wikilink_at_token)
        with eq None Cons show False by simp
      qed
      then have "pw (c # cs) = pw cs" using skip by blast
      moreover have "pw cs = parse_wikilinks cs" using Cons by (intro less.hyps) simp
      moreover have "parse_wikilinks (c # cs) = parse_wikilinks cs"
        using None Cons by (subst parse_wikilinks_unfold) simp
      ultimately show ?thesis using Cons by simp
    qed
  qed
qed

text \<open>
  Claim C5. A wikilink token is \<open>[[target]]\<close>, \<open>[[target#heading]]\<close>, \<open>[[target|alias]]\<close> or
  \<open>[[target#heading|alias]]\<close>, with or without a leading \<open>!\<close>, where the target is not
  empty and holds none of \<open>]\<close>, \<open>|\<close>, \<open>#\<close>, \<open>^\<close>, the heading holds none of \<open>]\<close>, \<open>|\<close>, and the
  alias is not empty and holds no \<open>]\<close>. For every text \<open>parse_wikilinks\<close> is the scan from left
  to right: where the text begins with a token, the target of the token comes first and the
  scan goes on behind the token; where it begins with no token, the scan goes on behind the
  first character; the empty text gives nothing. So the targets come in the order of the
  text, a target as often as it is linked, and every target returned stands in the text
  between \<open>[[\<close> and the first \<open>]\<close>, \<open>|\<close> or \<open>#\<close> after it. The three equations leave no choice:
  \<open>parse_wikilinks_determined\<close> shows that a function that satisfies them is
  \<open>parse_wikilinks\<close>. The text \<open>[[A]] and [[B|alias]] and [[C#heading]]\<close> gives \<open>A\<close>, \<open>B\<close>, \<open>C\<close>.
\<close>

theorem parse_wikilinks_scan:
  "parse_wikilinks ''[[A]] and [[B|alias]] and [[C#heading]]'' = [''A'', ''B'', ''C'']
   \<and> parse_wikilinks [] = []
   \<and> (\<forall>bang t h a rest.
         (bang = [] \<or> bang = ''!'') \<and> target_ok t \<and> heading_ok h \<and> alias_ok a
         \<longrightarrow> parse_wikilinks (bang @ wikilink t h a @ rest) = t # parse_wikilinks rest)
   \<and> (\<forall>c cs.
         (\<forall>bang t h a rest.
            (bang = [] \<or> bang = ''!'') \<and> target_ok t \<and> heading_ok h \<and> alias_ok a
            \<longrightarrow> c # cs \<noteq> bang @ wikilink t h a @ rest)
         \<longrightarrow> parse_wikilinks (c # cs) = parse_wikilinks cs)
   \<and> (\<forall>s t. t \<in> set (parse_wikilinks s)
         \<longrightarrow> target_ok t
             \<and> (\<exists>u d w. s = u @ ''[['' @ t @ d # w \<and> d \<in> {CHR '']'', CHR ''|'', CHR ''#''}))"
proof (intro conjI allI impI)
  show "parse_wikilinks ''[[A]] and [[B|alias]] and [[C#heading]]'' = [''A'', ''B'', ''C'']"
    by code_simp
next
  show "parse_wikilinks [] = []" by simp
next
  fix bang t h a rest
  assume "(bang = [] \<or> bang = ''!'') \<and> target_ok t \<and> heading_ok h \<and> alias_ok a"
  then have "wikilink_at (bang @ wikilink t h a @ rest) = Some (t, rest)"
    by (simp add: wikilink_at_token)
  then show "parse_wikilinks (bang @ wikilink t h a @ rest) = t # parse_wikilinks rest"
    by (subst parse_wikilinks_unfold) simp
next
  fix c cs
  assume no: "\<forall>bang t h a rest.
            (bang = [] \<or> bang = ''!'') \<and> target_ok t \<and> heading_ok h \<and> alias_ok a
            \<longrightarrow> c # cs \<noteq> bang @ wikilink t h a @ rest"
  have "wikilink_at (c # cs) = None"
  proof (cases "wikilink_at (c # cs)")
    case None
    then show ?thesis .
  next
    case (Some p)
    obtain t r where "p = (t, r)" by (cases p)
    with Some have "wikilink_at (c # cs) = Some (t, r)" by simp
    from wikilink_at_shape[OF this] no show ?thesis by blast
  qed
  then show "parse_wikilinks (c # cs) = parse_wikilinks cs"
    by (subst parse_wikilinks_unfold) simp
next
  fix s t
  assume "t \<in> set (parse_wikilinks s)"
  then show "target_ok t" using parse_wikilinks_sound by blast
next
  fix s t
  assume "t \<in> set (parse_wikilinks s)"
  then show "\<exists>u d w. s = u @ ''[['' @ t @ d # w \<and> d \<in> {CHR '']'', CHR ''|'', CHR ''#''}"
    using parse_wikilinks_sound by blast
qed

theorem parse_wikilinks_scan_witness:
  "target_ok ''My Note'' \<and> heading_ok (Some ''Section'') \<and> alias_ok (Some ''display text'')
   \<and> target_ok ''A'' \<and> heading_ok None \<and> alias_ok None
   \<and> parse_wikilinks ''[1] and [[A]]'' = parse_wikilinks ''1] and [[A]]''
   \<and> parse_wikilinks ''- [ ] see ![[My Note#Section|display text]], [[A]] and [[A]]''
       = [''My Note'', ''A'', ''A'']"
proof -
  have tok: "parse_wikilinks (bang @ wikilink t h a @ rest) = t # parse_wikilinks rest"
    if "bang = [] \<or> bang = ''!''" "target_ok t" "heading_ok h" "alias_ok a" for bang t h a rest
    using parse_wikilinks_scan that by blast
  have skip: "parse_wikilinks (c # cs) = parse_wikilinks cs"
    if "\<forall>bang t h a rest.
            (bang = [] \<or> bang = ''!'') \<and> target_ok t \<and> heading_ok h \<and> alias_ok a
            \<longrightarrow> c # cs \<noteq> bang @ wikilink t h a @ rest" for c cs
    using parse_wikilinks_scan that by blast
  have other: "parse_wikilinks (c # cs) = parse_wikilinks cs"
    if "c \<noteq> CHR ''!''" "c \<noteq> CHR ''[''" for c cs
    by (rule skip) (use that in \<open>auto simp: wikilink_def\<close>)
  have single: "parse_wikilinks (CHR ''['' # d # cs) = parse_wikilinks (d # cs)"
    if "d \<noteq> CHR ''[''" for d cs
    by (rule skip) (use that in \<open>auto simp: wikilink_def\<close>)
  have ok1: "target_ok ''My Note'' \<and> heading_ok (Some ''Section'') \<and> alias_ok (Some ''display text'')"
    by (simp add: target_ok_def heading_ok_def alias_ok_def)
  have ok2: "target_ok ''A'' \<and> heading_ok None \<and> alias_ok None"
    by (simp add: target_ok_def heading_ok_def alias_ok_def)
  have no: "\<forall>bang t h a rest.
         (bang = [] \<or> bang = ''!'') \<and> target_ok t \<and> heading_ok h \<and> alias_ok a
         \<longrightarrow> ''[1] and [[A]]'' \<noteq> bang @ wikilink t h a @ rest"
    by (auto simp: wikilink_def)
  have one: "parse_wikilinks ''[1] and [[A]]'' = parse_wikilinks ''1] and [[A]]''"
    using skip[OF no] .
  have a3: "parse_wikilinks ''[[A]]'' = [''A'']"
    using tok[of "[]" "''A''" None None "[]"] ok2 by (simp add: wikilink_def)
  have a2: "parse_wikilinks ''[[A]] and [[A]]'' = [''A'', ''A'']"
    using tok[of "[]" "''A''" None None "'' and [[A]]''"] ok2 a3
    by (simp add: wikilink_def other)
  have a1: "parse_wikilinks ''![[My Note#Section|display text]], [[A]] and [[A]]''
              = [''My Note'', ''A'', ''A'']"
    using tok[of "''!''" "''My Note''" "Some ''Section''" "Some ''display text''"
                 "'', [[A]] and [[A]]''"] ok1 a2
    by (simp add: wikilink_def other)
  have a0: "parse_wikilinks ''- [ ] see ![[My Note#Section|display text]], [[A]] and [[A]]''
       = [''My Note'', ''A'', ''A'']"
    using a1 by (simp add: other single)
  show ?thesis using ok1 ok2 one a0 by blast
qed

text \<open>
  Text between \<open>[[\<close> and \<open>]]\<close> that is not such a token gives no target: a caret in the
  target, an empty alias, a single \<open>]\<close> inside.
\<close>

theorem parse_wikilinks_scan_counterexample:
  "parse_wikilinks ''[[a^b]]'' = []
   \<and> parse_wikilinks ''[[A|]]'' = []
   \<and> parse_wikilinks ''[[a]b]]'' = []"
  by code_simp

subsection \<open>Lookup\<close>


lemma canonical_Cons [simp]:
  "canonical (x # xs) \<longleftrightarrow> x \<noteq> ''.'' \<and> x \<noteq> ''..'' \<and> x \<noteq> [] \<and> canonical xs"
  by (auto simp: canonical_def)

lemma canonical_Nil [simp]: "canonical []"
  by (simp add: canonical_def)




lemma wf_entries_map_of:
  "wf_entries es \<Longrightarrow> map_of es x = Some m \<Longrightarrow> valid_name x \<and> wf_node m"
  by (induction es) (auto split: if_splits)

lemma wf_get:
  assumes "wf_node n" "get n rel = Some m"
  shows "wf_node m \<and> canonical rel \<and> (\<forall>x \<in> set rel. valid_name x)"
  using assms
proof (induction rel arbitrary: n)
  case Nil
  then show ?case by simp
next
  case (Cons x rel)
  from Cons.prems obtain es where n: "n = Dir es" by (cases n) auto
  from Cons.prems n obtain k where k: "map_of es x = Some k" "get k rel = Some m"
    by (auto split: option.splits)
  from Cons.prems(1) n k(1) have v: "valid_name x" "wf_node k"
    using wf_entries_map_of by auto
  from Cons.IH[OF v(2) k(2)] v(1) show ?case by (auto simp: valid_name_def)
qed

subsection \<open>The recursive walk\<close>

lemma rglob_shape:
  "q \<in> set (rglob_dir m p n) \<Longrightarrow> \<exists>rel. q = p @ rel \<and> rel \<noteq> []"
  and rglob_shape_entries: "q \<in> set (rglob_entries m p es) \<Longrightarrow>
     \<exists>x rel. q = p @ x # rel \<and> rel \<noteq> [] \<and> x \<in> fst ` set es"
proof (induction m p n and m p es arbitrary: q and q rule: rglob_dir_rglob_entries.induct)
  case (1 m p c)
  then show ?case by simp
next
  case (2 m p es)
  from "2.prems" consider "q \<in> (\<lambda>e. p @ [fst e]) ` set es" | "q \<in> set (rglob_entries m p es)"
    by auto
  then show ?case
  proof cases
    case 1
    then show ?thesis by auto
  next
    case 2
    from "2.IH"[OF 2] obtain x rel where "q = p @ x # rel" by blast
    then show ?thesis by (intro exI[of _ "x # rel"]) simp
  qed
next
  case (3 m p)
  then show ?case by simp
next
  case (4 m p e es)
  from "4.prems" consider "q \<in> set (rglob_dir m (p @ [fst e]) (snd e))" | "q \<in> set (rglob_entries m p es)"
    by auto
  then show ?case
  proof cases
    case 1
    from "4.IH"(1)[OF 1] obtain rel where "q = (p @ [fst e]) @ rel" "rel \<noteq> []" by blast
    then show ?thesis by (intro exI[of _ "fst e"] exI[of _ rel]) simp
  next
    case 2
    from "4.IH"(2)[OF 2] show ?thesis by auto
  qed
qed

text \<open>What the walk yields, for a well-formed tree.\<close>

lemma map_of_fst_mem: "distinct (map fst es) \<Longrightarrow> e \<in> set es \<Longrightarrow> map_of es (fst e) = Some (snd e)"
  by (cases e) (simp)

lemma rglob_set:
  "wf_node n \<Longrightarrow>
     set (rglob_dir m p n) = {p @ rel | rel. rel \<noteq> [] \<and> get n rel \<noteq> None \<and> m (last rel)}"
  and rglob_set_entries: "wf_entries es \<Longrightarrow> distinct (map fst es) \<Longrightarrow>
     set (rglob_entries m p es)
       = {p @ x # rel | x rel. rel \<noteq> [] \<and> m (last rel)
                               \<and> (\<exists>k. map_of es x = Some k \<and> get k rel \<noteq> None)}"
proof (induction m p n and m p es rule: rglob_dir_rglob_entries.induct)
  case (1 m p c)
  have "\<And>rel. rel \<noteq> [] \<Longrightarrow> get (File c) rel = None" by (case_tac rel) auto
  then show ?case by auto
next
  case (2 m p es)
  from "2.prems" have wf: "wf_entries es" "distinct (map fst es)" by auto
  note IH = "2.IH"[OF wf]
  have kids: "(\<lambda>e. p @ [fst e]) ` {e \<in> set es. m (fst e)}
      = {p @ [x] | x. map_of es x \<noteq> None \<and> m x}"
  proof (intro set_eqI iffI)
    fix q assume "q \<in> (\<lambda>e. p @ [fst e]) ` {e \<in> set es. m (fst e)}"
    then obtain e where "e \<in> set es" "m (fst e)" "q = p @ [fst e]" by auto
    then show "q \<in> {p @ [x] | x. map_of es x \<noteq> None \<and> m x}"
      using map_of_fst_mem[OF wf(2)] by auto
  next
    fix q assume "q \<in> {p @ [x] | x. map_of es x \<noteq> None \<and> m x}"
    then obtain x k where "q = p @ [x]" "map_of es x = Some k" "m x" by auto
    then show "q \<in> (\<lambda>e. p @ [fst e]) ` {e \<in> set es. m (fst e)}"
      by (auto dest!: map_of_SomeD intro!: image_eqI[where x="(x, k)"])
  qed
  have split: "{p @ rel | rel. rel \<noteq> [] \<and> get (Dir es) rel \<noteq> None \<and> m (last rel)}
     = {p @ [x] | x. map_of es x \<noteq> None \<and> m x}
       \<union> {p @ x # rel | x rel. rel \<noteq> [] \<and> m (last rel)
                               \<and> (\<exists>k. map_of es x = Some k \<and> get k rel \<noteq> None)}"
    (is "?L = ?A \<union> ?B")
  proof (intro set_eqI iffI)
    fix q assume "q \<in> ?L"
    then obtain rel where rel: "q = p @ rel" "rel \<noteq> []" "get (Dir es) rel \<noteq> None" "m (last rel)"
      by auto
    then obtain x r where xr: "rel = x # r" by (cases rel) auto
    from rel(3) xr obtain k where k: "map_of es x = Some k" "get k r \<noteq> None"
      by (auto split: option.splits)
    show "q \<in> ?A \<union> ?B"
    proof (cases "r = []")
      case True
      with rel xr k show ?thesis by auto
    next
      case False
      with rel xr k have "q \<in> ?B" by auto
      then show ?thesis by simp
    qed
  next
    fix q assume "q \<in> ?A \<union> ?B"
    then show "q \<in> ?L"
    proof
      assume "q \<in> ?A"
      then obtain x where "q = p @ [x]" "map_of es x \<noteq> None" "m x" by auto
      then show ?thesis by (auto intro!: exI[of _ "[x]"])
    next
      assume "q \<in> ?B"
      then obtain x rel k where "q = p @ x # rel" "rel \<noteq> []" "m (last rel)"
        "map_of es x = Some k" "get k rel \<noteq> None" by auto
      then show ?thesis by (auto intro!: exI[of _ "x # rel"])
    qed
  qed
  show ?case unfolding split using IH kids by simp
next
  case (3 m p)
  then show ?case by simp
next
  case (4 m p e es)
  from "4.prems" have wf: "wf_node (snd e)" "wf_entries es" "distinct (map fst es)"
    and ne: "fst e \<notin> fst ` set es" by auto
  note IH1 = "4.IH"(1)[OF wf(1)] and IH2 = "4.IH"(2)[OF wf(2,3)]
  have "{p @ x # rel | x rel. rel \<noteq> [] \<and> m (last rel)
           \<and> (\<exists>k. map_of (e # es) x = Some k \<and> get k rel \<noteq> None)}
      = {(p @ [fst e]) @ rel | rel. rel \<noteq> [] \<and> get (snd e) rel \<noteq> None \<and> m (last rel)}
        \<union> {p @ x # rel | x rel. rel \<noteq> [] \<and> m (last rel)
               \<and> (\<exists>k. map_of es x = Some k \<and> get k rel \<noteq> None)}"
    (is "?L = ?A \<union> ?B")
  proof (intro set_eqI iffI)
    fix q assume "q \<in> ?L"
    then obtain x rel k where q: "q = p @ x # rel" "rel \<noteq> []" "m (last rel)"
      "map_of (e # es) x = Some k" "get k rel \<noteq> None" by auto
    show "q \<in> ?A \<union> ?B"
    proof (cases "x = fst e")
      case True
      with q have "k = snd e" by (cases e) auto
      with q True have "q \<in> ?A" by auto
      then show ?thesis by simp
    next
      case False
      with q have "map_of es x = Some k" by (cases e) auto
      with q have "q \<in> ?B" by auto
      then show ?thesis by simp
    qed
  next
    fix q assume "q \<in> ?A \<union> ?B"
    then show "q \<in> ?L"
    proof
      assume "q \<in> ?A"
      then obtain rel where "q = (p @ [fst e]) @ rel" "rel \<noteq> []" "get (snd e) rel \<noteq> None"
        "m (last rel)" by auto
      then show ?thesis
        by (cases e) (auto intro!: exI[of _ "fst e"] exI[of _ rel])
    next
      assume "q \<in> ?B"
      then obtain x rel k where q: "q = p @ x # rel" "rel \<noteq> []" "m (last rel)"
        "map_of es x = Some k" "get k rel \<noteq> None" by auto
      from q(4) have "x \<in> fst ` set es" by (auto dest: map_of_SomeD intro: rev_image_eqI)
      with ne have "x \<noteq> fst e" by blast
      with q have "map_of (e # es) x = Some k" by (cases e) auto
      with q show ?thesis by blast
    qed
  qed
  then show ?case using IH1 IH2 by simp
qed


lemma rglob_distinct:
  "wf_node n \<Longrightarrow> distinct (rglob_dir m p n)"
  and rglob_distinct_entries: "wf_entries es \<Longrightarrow> distinct (map fst es) \<Longrightarrow> distinct (rglob_entries m p es)"
proof (induction m p n and m p es rule: rglob_dir_rglob_entries.induct)
  case (1 m p c)
  then show ?case by simp
next
  case (2 m p es)
  from "2.prems" have wf: "wf_entries es" "distinct (map fst es)" by auto
  have d1: "distinct (map (\<lambda>e. p @ [fst e]) (filter (\<lambda>e. m (fst e)) es))"
  proof -
    have "distinct (map fst (filter (\<lambda>e. m (fst e)) es))"
      using wf(2) by (simp add: distinct_map_filter)
    moreover have "map (\<lambda>e. p @ [fst e]) (filter (\<lambda>e. m (fst e)) es)
        = map (\<lambda>x. p @ [x]) (map fst (filter (\<lambda>e. m (fst e)) es))" by simp
    ultimately show ?thesis
      by (simp only: distinct_map) (auto simp: inj_on_def)
  qed
  have d2: "distinct (rglob_entries m p es)" using "2.IH"[OF wf] .
  have disj: "set (map (\<lambda>e. p @ [fst e]) (filter (\<lambda>e. m (fst e)) es))
                \<inter> set (rglob_entries m p es) = {}"
  proof (rule ccontr)
    assume "\<not> ?thesis"
    then obtain q where a: "q \<in> set (map (\<lambda>e. p @ [fst e]) (filter (\<lambda>e. m (fst e)) es))"
      and b: "q \<in> set (rglob_entries m p es)" by auto
    from a have "length q = Suc (length p)" by auto
    moreover from rglob_shape_entries[OF b] obtain x rel where "q = p @ x # rel" "rel \<noteq> []" by blast
    then have "length q > Suc (length p)" by (cases rel) auto
    ultimately show False by simp
  qed
  show ?case using d1 d2 disj by simp
next
  case (3 m p)
  then show ?case by simp
next
  case (4 m p e es)
  from "4.prems" have wf: "wf_node (snd e)" "wf_entries es" "distinct (map fst es)"
    and ne: "fst e \<notin> fst ` set es" by auto
  have disj: "set (rglob_dir m (p @ [fst e]) (snd e)) \<inter> set (rglob_entries m p es) = {}"
  proof (rule ccontr)
    assume "\<not> ?thesis"
    then obtain q where a: "q \<in> set (rglob_dir m (p @ [fst e]) (snd e))"
      and b: "q \<in> set (rglob_entries m p es)" by auto
    from rglob_shape[OF a] obtain rel where r1: "q = (p @ [fst e]) @ rel" by blast
    from rglob_shape_entries[OF b] obtain x rel' where r2: "q = p @ x # rel'" "x \<in> fst ` set es" by blast
    from r1 r2 have "x = fst e" by simp
    with r2(2) ne show False by simp
  qed
  show ?case using "4.IH"(1)[OF wf(1)] "4.IH"(2)[OF wf(2,3)] disj by simp
qed

subsection \<open>The name test of a note\<close>

lemma gmatch_md:
  "gmatch [GStar, GLit CHR ''.'', GLit CHR ''m'', GLit CHR ''d''] s = suffix ''.md'' s"
proof (induction s)
  case Nil
  show ?case by simp
next
  case (Cons c s)
  have "gmatch [GLit CHR ''.'', GLit CHR ''m'', GLit CHR ''d''] (c # s) \<longleftrightarrow> c # s = ''.md''"
    by (cases s; cases "tl s"; cases "tl (tl s)") auto
  then show ?case using Cons by (auto simp: suffix_Cons)
qed

lemma fnmatch_md: "fnmatch ''*.md'' name = endswith name ''.md''"
  by (simp add: fnmatch_def endswith_def gmatch_md)


lemma rglob_md:
  "rglob fs base ''*.md'' =
     Inr (case stat fs base of Some (Dir es) \<Rightarrow> rglob_dir (\<lambda>n. endswith n ''.md'') base (Dir es)
          | _ \<Rightarrow> [])"
proof -
  have "make_selector ''*.md'' = Inr (fnmatch ''*.md'')"
    by (simp add: make_selector_def is_wildcard_pattern_def)
  moreover have "fnmatch ''*.md'' = (\<lambda>n. endswith n ''.md'')"
    by (rule ext) (rule fnmatch_md)
  ultimately show ?thesis
    by (auto simp: rglob_def split: option.splits node.splits)
qed


subsection \<open>The loops that yield\<close>

lemma yield_where_total:
  "(\<And>x. x \<in> set xs \<Longrightarrow> t x = Inr (P x)) \<Longrightarrow> yield_where t xs = Inr (filter P xs)"
  by (induction xs) auto

subsection \<open>The deep listing\<close>

lemma path_join_empty: "path_join r [] = r"
  by (simp add: path_join_def startswith_def parse_parts_def)

lemma base_eq: "(if folder \<noteq> [] then path_join r folder else r) = path_join r folder"
  by (simp add: path_join_empty)

lemma wf_stat:
  assumes "wf_node fs" "stat fs p = Some n"
  shows "wf_node n"
proof -
  from assms(2) obtain q where "get fs q = Some n"
    by (auto simp: stat_def split: sum.splits)
  with assms(1) show ?thesis using wf_get by blast
qed

lemma relative_to_prefix: "relative_to p b \<noteq> None \<Longrightarrow> prefix b p"
  by (simp add: relative_to_def split: if_splits)

lemma relative_to_Some:
  "relative_to p b \<noteq> None \<Longrightarrow> relative_to p b = Some (drop (length b) p)"
  by (simp add: relative_to_def split: if_splits)

lemma relative_to_below:
  "rel = [] \<or> hd rel \<noteq> [] \<Longrightarrow> relative_to (b @ rel) b = Some rel"
  by (cases b; cases rel) (auto simp: relative_to_def double_slash_def)

lemma relative_to_trans:
  assumes "relative_to base r \<noteq> None" "rel = [] \<or> hd rel \<noteq> []"
  shows "relative_to (base @ rel) r = Some (drop (length r) (base @ rel))"
proof -
  from assms(1) have p: "prefix r base" and d: "double_slash base = double_slash r"
    by (simp_all add: relative_to_def split: if_splits)
  have "double_slash (base @ rel) = double_slash base"
    using assms(2) by (cases base; cases rel) (auto simp: double_slash_def)
  moreover have "prefix r (base @ rel)" using p by (auto simp: prefix_def)
  ultimately show ?thesis using d by (simp add: relative_to_def)
qed

lemma entry_names:
  assumes "wf_node n" "get n rel \<noteq> None"
  shows "rel = [] \<or> hd rel \<noteq> []"
proof -
  from assms(2) obtain k where "get n rel = Some k" by auto
  from wf_get[OF assms(1) this] have "\<forall>x \<in> set rel. valid_name x" by simp
  then show ?thesis by (cases rel) (auto simp: valid_name_def)
qed

text \<open>
  The filtered, sorted walk below a directory \<open>base\<close> that is relative to the root: the
  result of the recursive branch of \<open>iter_notes\<close> and \<open>iter_entries\<close> for a name test \<open>m\<close>.
\<close>

lemma deep_listing_walk:
  assumes wf: "wf_node n" and under: "relative_to base (root v) \<noteq> None"
  shows "\<exists>ps. yield_where (\<lambda>p. and_then (should_include v p) (within_depth p base d))
                 (sort (rglob_dir m base n)) = Inr ps
          \<and> sorted ps \<and> distinct ps
          \<and> set ps = {base @ rel | rel. rel \<noteq> [] \<and> get n rel \<noteq> None \<and> m (last rel)
                          \<and> int (length rel) \<le> d
                          \<and> (\<forall>part \<in> set (drop (length (root v)) (base @ rel)).
                                part \<notin> EXCLUDED_DIRS)}"
proof -
  let ?xs = "sort (rglob_dir m base n)"
  let ?P = "\<lambda>p. (\<forall>part \<in> set (drop (length (root v)) p). part \<notin> EXCLUDED_DIRS)
                \<and> int (length (drop (length base) p)) \<le> d"
  have t: "\<And>p. p \<in> set ?xs \<Longrightarrow>
      and_then (should_include v p) (within_depth p base d) = Inr (?P p)"
  proof -
    fix p assume "p \<in> set ?xs"
    then have "p \<in> set (rglob_dir m base n)" by simp
    with rglob_set[OF wf, of m base] obtain rel where p: "p = base @ rel"
      and g: "get n rel \<noteq> None" by auto
    have h: "rel = [] \<or> hd rel \<noteq> []" using wf g by (rule entry_names)
    have 1: "relative_to p base = Some (drop (length base) p)"
      unfolding p using relative_to_below[OF h] by simp
    have 2: "relative_to p (root v) = Some (drop (length (root v)) p)"
      unfolding p using under h by (rule relative_to_trans)
    show "and_then (should_include v p) (within_depth p base d) = Inr (?P p)"
      using 1 2 by (auto simp: and_then_def should_include_def within_depth_def)
  qed
  have y: "yield_where (\<lambda>p. and_then (should_include v p) (within_depth p base d)) ?xs
             = Inr (filter ?P ?xs)"
    by (rule yield_where_total) (rule t)
  have s: "sorted (filter ?P ?xs)" by (simp add: sorted_wrt_filter)
  have dd: "distinct (filter ?P ?xs)" using rglob_distinct[OF wf] by simp
  have st: "set (filter ?P ?xs) = {base @ rel | rel. rel \<noteq> [] \<and> get n rel \<noteq> None \<and> m (last rel)
                          \<and> int (length rel) \<le> d
                          \<and> (\<forall>part \<in> set (drop (length (root v)) (base @ rel)).
                                part \<notin> EXCLUDED_DIRS)}"
    using rglob_set[OF wf, of m base] by auto
  show ?thesis using y s dd st by blast
qed

lemma is_dir_stat: "is_dir fs p \<longleftrightarrow> (\<exists>es. stat fs p = Some (Dir es))"
  by (auto simp: is_dir_def split: option.splits node.splits)

lemma entry_below_dir:
  "stat fs base = Some n \<Longrightarrow> entry_below fs base rel \<longleftrightarrow> rel \<noteq> [] \<and> get n rel \<noteq> None"
  by (simp add: entry_below_def)

lemma entry_below_not_dir:
  assumes "\<not> is_dir fs base"
  shows "\<not> entry_below fs base rel"
proof (cases "stat fs base")
  case None
  then show ?thesis by (simp add: entry_below_def)
next
  case (Some n)
  with assms obtain c where "n = File c" by (cases n) (auto simp: is_dir_stat)
  then show ?thesis using Some by (cases rel) (auto simp: entry_below_def)
qed

lemma iter_notes_deep:
  assumes wf: "wf_node fs" and under: "relative_to (path_join (root v) folder) (root v) \<noteq> None"
  shows "\<exists>ps. iter_notes fs v folder True d = Inr ps \<and> sorted ps \<and> distinct ps
          \<and> set ps = {path_join (root v) folder @ rel | rel.
                        entry_below fs (path_join (root v) folder) rel
                        \<and> endswith (last rel) ''.md''
                        \<and> int (length rel) \<le> d
                        \<and> (\<forall>part \<in> set (drop (length (root v)) (path_join (root v) folder @ rel)).
                              part \<notin> EXCLUDED_DIRS)}"
proof (cases "is_dir fs (path_join (root v) folder)")
  case False
  then show ?thesis
    by (auto simp: iter_notes_def base_eq entry_below_not_dir)
next
  case True
  then obtain es where st: "stat fs (path_join (root v) folder) = Some (Dir es)"
    by (auto simp: is_dir_stat)
  have wfn: "wf_node (Dir es)" using wf st by (rule wf_stat)
  have eq: "iter_notes fs v folder True d
      = yield_where (\<lambda>p. and_then (should_include v p)
                                    (within_depth p (path_join (root v) folder) d))
          (sort (rglob_dir (\<lambda>n. endswith n ''.md'') (path_join (root v) folder) (Dir es)))"
    using True st by (simp add: iter_notes_def base_eq rglob_md Let_def del: rglob_dir.simps)
  show ?thesis
    unfolding eq entry_below_dir[OF st]
    using deep_listing_walk[OF wfn under, of d "\<lambda>n. endswith n ''.md''"]
    by (simp add: conj_assoc del: rglob_dir.simps)
qed



lemma relative_under_root:
  "\<not> startswith folder ''/'' \<Longrightarrow> relative_to (path_join (root v) folder) (root v) \<noteq> None"
proof -
  assume a: "\<not> startswith folder ''/''"
  have "parse_parts folder = [] \<or> hd (parse_parts folder) \<noteq> []"
  proof (cases "parse_parts folder")
    case Nil
    then show ?thesis by simp
  next
    case (Cons x xs)
    then have "x \<in> set (parse_parts folder)" by simp
    then have "x \<noteq> []" by (simp add: parse_parts_def)
    with Cons show ?thesis by simp
  qed
  from relative_to_below[OF this] a show ?thesis by (simp add: path_join_def)
qed

text \<open>
  A folder with the root \<open>//\<close> is not relative to the root of the vault, whatever its
  components: the base folder exists, and the enumerators raise the \<open>ValueError\<close> of
  \<open>relative_to\<close>. With three slashes the folder has the root \<open>/\<close>.
\<close>

lemma double_slash_folder:
  "path_join (root top_vault) ''//vault/b'' = [[], ''vault'', ''b'']
   \<and> str_of_path (path_join (root top_vault) ''//vault/b'') = ''//vault/b''
   \<and> is_dir listing_fs (path_join (root top_vault) ''//vault/b'')
   \<and> relative_to (path_join (root top_vault) ''//vault/b'') (root top_vault) = None
   \<and> iter_notes listing_fs top_vault ''//vault/b'' True 2 = Inl ValueError
   \<and> iter_entries listing_fs top_vault ''//vault/b'' True 2 = Inl ValueError
   \<and> iter_notes listing_fs top_vault ''///vault/b'' True 1 = Inr [[''vault'', ''b'', ''n.md'']]"
  by code_simp




subsection \<open>Backlinks\<close>

lemma backlink_of_Some:
  "backlink_of tn content ts = Some ctx \<Longrightarrow>
     \<exists>pre t post. ts = pre @ t # post \<and> (\<forall>u \<in> set pre. \<not> link_matches tn u)
        \<and> link_matches tn t \<and> ctx = context_line content t"
proof (induction ts)
  case Nil
  then show ?case by simp
next
  case (Cons a ts)
  show ?case
  proof (cases "link_matches tn a")
    case True
    with Cons.prems have "ctx = context_line content a" by simp
    with True show ?thesis by (intro exI[of _ "[]"] exI[of _ a] exI[of _ ts]) simp
  next
    case False
    with Cons obtain pre t post where "ts = pre @ t # post" "\<forall>u \<in> set pre. \<not> link_matches tn u"
      "link_matches tn t" "ctx = context_line content t" by auto
    with False show ?thesis by (intro exI[of _ "a # pre"] exI[of _ t] exI[of _ post]) simp
  qed
qed

text \<open>
  The results of the loop: one for each note that is not the wanted note, can be read and
  has a matching target, in the order of the scan, and each made from the first matching
  target of its note.
\<close>

lemma backlinks_loop_results:
  assumes "backlinks_loop fs v resolved tn nts = Inr results"
    and "\<forall>n \<in> set nts. relative_to n (root v) \<noteq> None"
  shows "map fst results
           = map (drop (length (root v)))
               (filter (\<lambda>n. n \<noteq> resolved
                         \<and> (\<exists>content ctx. read_text fs n = Inr content
                               \<and> backlink_of tn content (parse_wikilinks content) = Some ctx))
                  nts)
          \<and> (\<forall>x \<in> set results.
               \<exists>content pre t post.
                  read_text fs (root v @ fst x) = Inr content
                  \<and> parse_wikilinks content = pre @ t # post
                  \<and> (\<forall>u \<in> set pre. \<not> link_matches tn u)
                  \<and> link_matches tn t \<and> snd x = context_line content t)"
  using assms
proof (induction nts arbitrary: results)
  case Nil
  then show ?case by simp
next
  case (Cons nt nts)
  let ?Q = "\<lambda>x. \<exists>content pre t post.
                  read_text fs (root v @ fst x) = Inr content
                  \<and> parse_wikilinks content = pre @ t # post
                  \<and> (\<forall>u \<in> set pre. \<not> link_matches tn u)
                  \<and> link_matches tn t \<and> snd x = context_line content t"
  let ?P = "\<lambda>n. n \<noteq> resolved
                         \<and> (\<exists>content ctx. read_text fs n = Inr content
                               \<and> backlink_of tn content (parse_wikilinks content) = Some ctx)"
  from Cons.prems(2) have rn: "relative_to nt (root v) \<noteq> None"
    and pns: "\<forall>n \<in> set nts. relative_to n (root v) \<noteq> None"
    by auto
  from rn have pn: "prefix (root v) nt" by (rule relative_to_prefix)
  have skip: "backlinks_loop fs v resolved tn nts = Inr results \<Longrightarrow> \<not> ?P nt \<Longrightarrow> ?case"
  proof -
    assume a: "backlinks_loop fs v resolved tn nts = Inr results" and b: "\<not> ?P nt"
    from Cons.IH[OF a pns] b show ?case by simp
  qed
  show ?case
  proof (cases "nt = resolved")
    case True
    with Cons.prems(1) show ?thesis by (intro skip) simp_all
  next
    case False
    show ?thesis
    proof (cases "read_text fs nt")
      case (Inl e)
      have "e = UnicodeDecodeError \<or> e = OSError"
        using Inl by (auto simp: read_text_def split: option.splits node.splits fcontent.splits)
      with Cons.prems(1) False Inl show ?thesis by (intro skip) auto
    next
      case (Inr content)
      show ?thesis
      proof (cases "backlink_of tn content (parse_wikilinks content)")
        case None
        with Cons.prems(1) False Inr show ?thesis by (intro skip) simp_all
      next
        case (Some ctx)
        from rn have rel: "relative_to nt (root v) = Some (drop (length (root v)) nt)"
          by (rule relative_to_Some)
        from Cons.prems(1) False Inr Some rel obtain rest where
          rest: "backlinks_loop fs v resolved tn nts = Inr rest"
          and res: "results = (drop (length (root v)) nt, ctx) # rest"
          by (auto split: sum.splits)
        note IH = Cons.IH[OF rest pns]
        have bk: "root v @ drop (length (root v)) nt = nt"
          using pn by (auto simp: prefix_def)
        from backlink_of_Some[OF Some] Inr bk
        have "?Q (drop (length (root v)) nt, ctx)" by simp
        moreover have "?P nt" using False Inr Some by simp
        ultimately show ?thesis using IH res by simp
      qed
    qed
  qed
qed

lemma drop_root_inj:
  "inj_on (drop (length r)) {n. prefix r n}"
  by (auto simp: inj_on_def prefix_def)

lemma entry_below_names:
  assumes "wf_node fs" "entry_below fs base rel"
  shows "hd rel \<noteq> []"
proof -
  from assms(2) obtain n where n: "stat fs base = Some n" "get n rel \<noteq> None" "rel \<noteq> []"
    by (auto simp: entry_below_def split: option.splits)
  have "wf_node n" using assms(1) n(1) by (rule wf_stat)
  from entry_names[OF this n(2)] n(3) show ?thesis by simp
qed

lemma iter_notes_root:
  assumes "wf_node fs" "iter_notes fs v [] True d = Inr nts"
  shows "distinct nts \<and> sorted nts \<and> (\<forall>n \<in> set nts. prefix (root v) n)
     \<and> (\<forall>n \<in> set nts. \<exists>rel. n = root v @ rel \<and> entry_below fs (root v) rel
            \<and> endswith (last rel) ''.md'')
     \<and> (\<forall>n \<in> set nts. relative_to n (root v) \<noteq> None)"
proof -
  have u: "relative_to (path_join (root v) []) (root v) \<noteq> None"
    by (simp add: path_join_empty relative_to_def)
  from iter_notes_deep[OF assms(1) u, of d] assms(2)
  have "distinct nts" "sorted nts"
    and s: "set nts = {root v @ rel | rel.
                        entry_below fs (root v) rel
                        \<and> endswith (last rel) ''.md''
                        \<and> int (length rel) \<le> d
                        \<and> (\<forall>part \<in> set (drop (length (root v)) (root v @ rel)).
                              part \<notin> EXCLUDED_DIRS)}"
    by (auto simp: path_join_empty)
  have "relative_to n (root v) \<noteq> None" if "n \<in> set nts" for n
  proof -
    from that s obtain rel where "n = root v @ rel" "entry_below fs (root v) rel" by auto
    then show ?thesis
      using relative_to_below[of rel "root v"] entry_below_names[OF assms(1)] by auto
  qed
  with \<open>distinct nts\<close> \<open>sorted nts\<close> s show ?thesis by auto
qed

text \<open>
  Claim C10. \<open>get_backlinks\<close> reports a note at most once: the paths of its results are
  distinct. Every result is made from the first target of the note that matches the name
  of the wanted note: the targets before it do not match, the line of context is the line
  of that target, and the targets after it play no part.
\<close>

theorem get_backlinks_once:
  assumes "wf_node fs"
    and "resolve_path fs v path = Inr (Some resolved)"
    and "get_backlinks fs v path = Inr (BackLinks target_rel results)"
  shows "distinct (map fst results)
       \<and> (\<forall>x \<in> set results.
            \<exists>content pre t post.
               read_text fs (root v @ fst x) = Inr content
               \<and> parse_wikilinks content = pre @ t # post
               \<and> (\<forall>u \<in> set pre. \<not> link_matches (path_stem resolved) u)
               \<and> link_matches (path_stem resolved) t
               \<and> snd x = context_line content t)"
proof -
  from assms(2,3) obtain nts where
    nts: "iter_notes fs v [] True 100 = Inr nts"
    and loop: "backlinks_loop fs v resolved (path_stem resolved) nts = Inr results"
    by (auto simp: get_backlinks_def split: option.splits sum.splits if_splits)
  from iter_notes_root[OF assms(1) nts] have d: "distinct nts"
    and p: "\<forall>n \<in> set nts. prefix (root v) n"
    and r: "\<forall>n \<in> set nts. relative_to n (root v) \<noteq> None" by auto
  from backlinks_loop_results[OF loop r] obtain ns where ns: "ns = filter (\<lambda>n. n \<noteq> resolved
                         \<and> (\<exists>content ctx. read_text fs n = Inr content
                               \<and> backlink_of (path_stem resolved) content (parse_wikilinks content) = Some ctx))
                  nts"
    "map fst results = map (drop (length (root v))) ns"
    and q: "\<forall>x \<in> set results.
            \<exists>content pre t post.
               read_text fs (root v @ fst x) = Inr content
               \<and> parse_wikilinks content = pre @ t # post
               \<and> (\<forall>u \<in> set pre. \<not> link_matches (path_stem resolved) u)
               \<and> link_matches (path_stem resolved) t
               \<and> snd x = context_line content t" by blast
  have "distinct ns" using ns(1) d by simp
  moreover have "set ns \<subseteq> {n. prefix (root v) n}"
    using ns(1) p by auto
  ultimately have "distinct (map (drop (length (root v))) ns)"
    using drop_root_inj[of "root v"] by (auto simp: distinct_map intro: inj_on_subset)
  with ns(2) q show ?thesis by simp
qed


theorem get_backlinks_once_witness:
  "wf_node multi_fs
   \<and> resolve_path multi_fs top_vault ''note'' = Inr (Some [''vault'', ''note.md''])
   \<and> parse_wikilinks ''one [[note]]\<newline>two [[Note|again]] and [[x/note]]''
       = [''note'', ''Note'', ''x/note'']
   \<and> get_backlinks multi_fs top_vault ''note''
       = Inr (BackLinks [''note.md''] [([''multi.md''], Some ''one [[note]]'')])
   \<and> distinct (map fst [([''multi.md''], Some ''one [[note]]'')])"
proof -
  have h1: "wf_node multi_fs" by code_simp
  have h2: "resolve_path multi_fs top_vault ''note'' = Inr (Some [''vault'', ''note.md''])"
    by code_simp
  have h3: "get_backlinks multi_fs top_vault ''note''
       = Inr (BackLinks [''note.md''] [([''multi.md''], Some ''one [[note]]'')])"
    by code_simp
  have p: "parse_wikilinks ''one [[note]]\<newline>two [[Note|again]] and [[x/note]]''
       = [''note'', ''Note'', ''x/note'']"
    by code_simp
  from get_backlinks_once[OF h1 h2 h3]
  have d: "distinct (map fst [([''multi.md''], Some ''one [[note]]'')])"
    by (rule conjunct1)
  show ?thesis by (rule conjI[OF h1 conjI[OF h2 conjI[OF p conjI[OF h3 d]]]])
qed

subsection \<open>The root of a vault\<close>









subsection \<open>Bare names\<close>







subsection \<open>Resolution of a bare name\<close>





end
